theory Spec2Isabelle
  imports Main "HOL-Library.Word"
begin

unbundle bit_operations_syntax

section \<open>Maximal-length sequence generator (msequence.c)\<close>

subsection \<open>Data model\<close>

text \<open>
  The C type \<^verbatim>\<open>unsigned int\<close> is a 32-bit word. \<^verbatim>\<open>struct msequence_s\<close> has the
  fields \<^verbatim>\<open>m, g, a, n, v, b\<close>; the record keeps them in that order, each prefixed
  with \<^verbatim>\<open>ms_\<close> so that the one-letter names stay free for variables.
\<close>

type_synonym uint = "32 word"

record msequence =
  ms_m :: uint
  ms_g :: uint
  ms_a :: uint
  ms_n :: uint
  ms_v :: uint
  ms_b :: uint

text \<open>
  \<^verbatim>\<open>liquid_error_config\<close> reports a message and returns the null object. The
  constructors return \<open>Inl\<close> of the error where the C returns that null pointer.
\<close>

datatype liquid_error = LIQUID_EICONFIG string

definition liquid_error_config :: "string \<Rightarrow> liquid_error + msequence" where
  "liquid_error_config msg = Inl (LIQUID_EICONFIG msg)"

definition LIQUID_MIN_MSEQUENCE_M :: uint where
  "LIQUID_MIN_MSEQUENCE_M = 2"

definition LIQUID_MAX_MSEQUENCE_M :: uint where
  "LIQUID_MAX_MSEQUENCE_M = 31"

subsection \<open>External primitives\<close>

text \<open>
  Modelled from the spec: \<^verbatim>\<open>liquid_bdotprod\<close> is declared in liquid.internal.h and
  defined outside this file. The spec gives its contract: the parity (XOR-reduction)
  of the bitwise AND of its two arguments. \<open>xor_reduce k w\<close> is the XOR of the
  \<open>k\<close> low bits of \<open>w\<close>.
\<close>

fun xor_reduce :: "nat \<Rightarrow> uint \<Rightarrow> bool" where
  "xor_reduce 0 w = False"
| "xor_reduce (Suc k) w = (bit w k \<noteq> xor_reduce k w)"

definition parity :: "uint \<Rightarrow> uint" where
  "parity w = (if xor_reduce 32 w then 1 else 0)"

definition liquid_bdotprod :: "uint \<Rightarrow> uint \<Rightarrow> uint" where
  "liquid_bdotprod x y = parity (x AND y)"

text \<open>
  Modelled from the spec: \<^verbatim>\<open>liquid_msb_index\<close> is defined outside this file. The spec
  gives its contract: the 1-based position of the highest set bit, and a sentinel for
  zero, which is taken to be 0 (the number of significant bits of zero).
  \<open>msb_pos k x\<close> looks for the highest set bit below position \<open>k\<close>.
\<close>

fun msb_pos :: "nat \<Rightarrow> uint \<Rightarrow> nat" where
  "msb_pos 0 x = 0"
| "msb_pos (Suc k) x = (if bit x k then Suc k else msb_pos k x)"

definition liquid_msb_index :: "uint \<Rightarrow> uint" where
  "liquid_msb_index x = of_nat (msb_pos 32 x)"

subsection \<open>The default table\<close>

definition row :: "uint \<Rightarrow> uint \<Rightarrow> uint \<Rightarrow> uint \<Rightarrow> uint \<Rightarrow> uint \<Rightarrow> msequence" where
  "row m g a n v b = \<lparr>ms_m = m, ms_g = g, ms_a = a, ms_n = n, ms_v = v, ms_b = b\<rparr>"

definition msequence_default :: "msequence list" where
  "msequence_default =
    [row 0 0 1 0 1 0,
     row 0 0 1 0 1 0,
     row 2 0x0003 0x0002 (push_bit 2 1 - 1) 0x0002 0,
     row 3 0x0005 0x0004 (push_bit 3 1 - 1) 0x0004 0,
     row 4 0x0009 0x0008 (push_bit 4 1 - 1) 0x0008 0,
     row 5 0x0012 0x0010 (push_bit 5 1 - 1) 0x0010 0,
     row 6 0x0021 0x0020 (push_bit 6 1 - 1) 0x0020 0,
     row 7 0x0044 0x0040 (push_bit 7 1 - 1) 0x0040 0,
     row 8 0x008E 0x0080 (push_bit 8 1 - 1) 0x0080 0,
     row 9 0x0108 0x0100 (push_bit 9 1 - 1) 0x0100 0,
     row 10 0x0204 0x0200 (push_bit 10 1 - 1) 0x0200 0,
     row 11 0x0402 0x0400 (push_bit 11 1 - 1) 0x0400 0,
     row 12 0x0829 0x0800 (push_bit 12 1 - 1) 0x0800 0,
     row 13 0x100d 0x1000 (push_bit 13 1 - 1) 0x1000 0,
     row 14 0x2015 0x2000 (push_bit 14 1 - 1) 0x2000 0,
     row 15 0x4001 0x4000 (push_bit 15 1 - 1) 0x4000 0]"

subsection \<open>Constructors\<close>

text \<open>
  The loop of \<^verbatim>\<open>msequence_create\<close> that reverses the seed: \<open>k\<close> is the number of
  iterations left, \<open>acc\<close> is \<^verbatim>\<open>ms->a\<close> and \<open>x\<close> is \<^verbatim>\<open>_a\<close>.
\<close>

fun reverse_loop :: "nat \<Rightarrow> uint \<Rightarrow> uint \<Rightarrow> uint" where
  "reverse_loop 0 acc x = acc"
| "reverse_loop (Suc k) acc x =
     reverse_loop k (push_bit 1 acc OR (x AND 0x01)) (drop_bit 1 x)"

text \<open>
  \<^verbatim>\<open>(1<<_m)-1\<close> is computed in \<^verbatim>\<open>int\<close> and stored in an \<^verbatim>\<open>unsigned int\<close>; the
  model computes it on 32-bit words, which agrees for every \<open>_m\<close> up to 30 and gives
  the two's complement result \<open>2^31 - 1\<close> for \<open>_m = 31\<close>.
\<close>

definition msequence_create :: "uint \<Rightarrow> uint \<Rightarrow> uint \<Rightarrow> liquid_error + msequence" where
  "msequence_create m g a =
    (if m > LIQUID_MAX_MSEQUENCE_M \<or> m < LIQUID_MIN_MSEQUENCE_M
     then liquid_error_config ''msequence_create(), m not in range''
     else
       let a' = reverse_loop (unat m) 0 a
       in Inr \<lparr>ms_m = m, ms_g = drop_bit 1 g, ms_a = a',
               ms_n = push_bit (unat m) 1 - 1, ms_v = a', ms_b = 0\<rparr>)"

definition msequence_create_genpoly :: "uint \<Rightarrow> liquid_error + msequence" where
  "msequence_create_genpoly g =
    (let t = liquid_msb_index g in
     if t < 2
     then liquid_error_config
            ''msequence_create_genpoly(), invalid generator polynomial: 0x%x''
     else
       let m = t - 1; a = 1
       in msequence_create m g a)"

definition msequence_create_default :: "uint \<Rightarrow> liquid_error + msequence" where
  "msequence_create_default m =
    (if m < LIQUID_MIN_MSEQUENCE_M \<or> m > 15
     then liquid_error_config ''msequence_create(), m not in range''
     else Inr (msequence_default ! unat m))"

subsection \<open>Operations\<close>

text \<open>Each operation returns its C return value and the updated object.\<close>

definition msequence_advance :: "msequence \<Rightarrow> uint \<times> msequence" where
  "msequence_advance ms =
    (let ms1 = ms\<lparr>ms_b := liquid_bdotprod (ms_v ms) (ms_g ms)\<rparr>;
         ms2 = ms1\<lparr>ms_v := push_bit 1 (ms_v ms1)\<rparr>;
         ms3 = ms2\<lparr>ms_v := ms_v ms2 OR ms_b ms2\<rparr>;
         ms4 = ms3\<lparr>ms_v := ms_v ms3 AND ms_n ms3\<rparr>
     in (ms_b ms4, ms4))"

text \<open>
  The loop of \<^verbatim>\<open>msequence_generate_symbol\<close>: \<open>k\<close> is the number of iterations
  left and \<open>s\<close> the accumulator.
\<close>

fun symbol_loop :: "nat \<Rightarrow> uint \<Rightarrow> msequence \<Rightarrow> uint \<times> msequence" where
  "symbol_loop 0 s ms = (s, ms)"
| "symbol_loop (Suc k) s ms =
     (let s1 = push_bit 1 s;
          (bt, ms') = msequence_advance ms
      in symbol_loop k (s1 OR bt) ms')"

definition msequence_generate_symbol :: "msequence \<Rightarrow> uint \<Rightarrow> uint \<times> msequence" where
  "msequence_generate_symbol ms bps = symbol_loop (unat bps) 0 ms"

definition msequence_reset :: "msequence \<Rightarrow> msequence" where
  "msequence_reset ms = ms\<lparr>ms_v := ms_a ms\<rparr>"

definition msequence_get_state :: "msequence \<Rightarrow> uint" where
  "msequence_get_state ms = ms_v ms"

definition msequence_set_state :: "msequence \<Rightarrow> uint \<Rightarrow> msequence" where
  "msequence_set_state ms a = ms\<lparr>ms_v := a\<rparr>"

subsection \<open>Runs of the generator\<close>

text \<open>\<open>advance_n k ms\<close> calls \<^verbatim>\<open>msequence_advance\<close> \<open>k\<close> times in a row and
  collects the returned bits, first call first.\<close>

fun advance_n :: "nat \<Rightarrow> msequence \<Rightarrow> uint list \<times> msequence" where
  "advance_n 0 ms = ([], ms)"
| "advance_n (Suc k) ms =
     (let (bt, ms1) = msequence_advance ms;
          (bts, ms2) = advance_n k ms1
      in (bt # bts, ms2))"

text \<open>The mutating operations of the public interface, and a sequence of them applied
  to one object.\<close>

datatype operation = Advance | GenerateSymbol uint | Reset | SetState uint

fun apply_operation :: "msequence \<Rightarrow> operation \<Rightarrow> msequence" where
  "apply_operation ms Advance = snd (msequence_advance ms)"
| "apply_operation ms (GenerateSymbol bps) = snd (msequence_generate_symbol ms bps)"
| "apply_operation ms Reset = msequence_reset ms"
| "apply_operation ms (SetState x) = msequence_set_state ms x"

definition run :: "operation list \<Rightarrow> msequence \<Rightarrow> msequence" where
  "run ops ms = foldl apply_operation ms ops"

text \<open>An object is validly constructed when one of the three constructors returned it.\<close>

inductive constructed :: "msequence \<Rightarrow> bool" where
  by_create: "msequence_create m g a = Inr ms \<Longrightarrow> constructed ms"
| by_genpoly: "msequence_create_genpoly g = Inr ms \<Longrightarrow> constructed ms"
| by_default: "msequence_create_default m = Inr ms \<Longrightarrow> constructed ms"

text \<open>The argument of every \<open>SetState\<close> in a sequence of operations is at most \<open>n\<close>.\<close>

fun state_arg_within :: "uint \<Rightarrow> operation \<Rightarrow> bool" where
  "state_arg_within n (SetState x) = (x \<le> n)"
| "state_arg_within n _ = True"

text \<open>The register update of \<^verbatim>\<open>msequence_advance\<close> as a function of the register alone,
  for a polynomial \<open>g\<close> and a mask \<open>n\<close>.\<close>

definition lfsr_step :: "uint \<Rightarrow> uint \<Rightarrow> uint \<Rightarrow> uint" where
  "lfsr_step g n v = (push_bit 1 v OR liquid_bdotprod v g) AND n"

text \<open>The fields that no operation changes: register length, polynomial, seed and mask.\<close>

definition config_inv :: "uint \<Rightarrow> uint \<Rightarrow> uint \<Rightarrow> uint \<Rightarrow> msequence \<Rightarrow> bool" where
  "config_inv m g a n ms \<longleftrightarrow> ms_m ms = m \<and> ms_g ms = g \<and> ms_a ms = a \<and> ms_n ms = n"

subsection \<open>Periods of a bit stream\<close>

text \<open>\<open>d\<close> is a period of the list \<open>bs\<close>: every element equals the one \<open>d\<close> places
  further on, wherever both exist.\<close>

definition is_period :: "nat \<Rightarrow> 'a list \<Rightarrow> bool" where
  "is_period d bs \<longleftrightarrow> (\<forall>i. i + d < length bs \<longrightarrow> bs ! (i + d) = bs ! i)"

subsection \<open>Fast forwarding the register\<close>

text \<open>
  The definitions of this subsection are not part of the program. The register update is
  linear over XOR, so a number of steps can be applied at once by a binary matrix, held as
  the list of the images of the unit vectors \<open>2^0, 2^1, \<dots>\<close>. \<open>mat_apply M v\<close> is the
  XOR of the columns of \<open>M\<close> selected by the bits of \<open>v\<close>.
\<close>

fun mat_apply :: "uint list \<Rightarrow> uint \<Rightarrow> uint" where
  "mat_apply [] v = 0"
| "mat_apply (c # cs) v = (if bit v 0 then c else 0) XOR mat_apply cs (drop_bit 1 v)"

text \<open>The matrix of a function on registers of \<open>m\<close> bits, and the square of a matrix.\<close>

definition mat_of :: "(uint \<Rightarrow> uint) \<Rightarrow> nat \<Rightarrow> uint list" where
  "mat_of h m = map (\<lambda>i. h (push_bit i 1)) [0..<m]"

definition mat_sq :: "uint list \<Rightarrow> uint list" where
  "mat_sq M = map (mat_apply M) M"

text \<open>\<open>mat_pows k M\<close> lists \<open>M, M^2, M^4, \<dots>\<close> (\<open>k\<close> matrices); \<open>apply_bits\<close> applies
  those selected by the binary digits of \<open>e\<close>, which is \<open>M^e\<close>.\<close>

fun mat_pows :: "nat \<Rightarrow> uint list \<Rightarrow> uint list list" where
  "mat_pows 0 M = []"
| "mat_pows (Suc k) M = M # mat_pows k (mat_sq M)"

fun apply_bits :: "uint list list \<Rightarrow> nat \<Rightarrow> uint \<Rightarrow> uint" where
  "apply_bits [] e v = v"
| "apply_bits (M # Ms) e v = apply_bits Ms (e div 2) (if odd e then mat_apply M v else v)"

text \<open>Trial division: \<open>p\<close> is below \<open>r^2\<close> and no number from 2 below \<open>r\<close> whose square
  is at most \<open>p\<close> divides it.\<close>

definition prime_upto :: "nat \<Rightarrow> nat \<Rightarrow> bool" where
  "prime_upto r p \<longleftrightarrow>
     1 < p \<and> p < r * r \<and> (\<forall>k \<in> set [2..<r]. k * k \<le> p \<longrightarrow> \<not> k dvd p)"

text \<open>Functions on registers that commute with XOR, and functions whose values fit
  in \<open>m\<close> bits.\<close>

definition linear :: "(uint \<Rightarrow> uint) \<Rightarrow> bool" where
  "linear h \<longleftrightarrow> (\<forall>x y. h (x XOR y) = h x XOR h y)"

definition bounded :: "nat \<Rightarrow> (uint \<Rightarrow> uint) \<Rightarrow> bool" where
  "bounded m h \<longleftrightarrow> (\<forall>x. take_bit m (h x) = h x)"

text \<open>
  The check for one register length \<open>m\<close>, polynomial \<open>g\<close> and initial state \<open>a\<close>: with
  \<open>N = 2^m - 1\<close> and \<open>ps\<close> the prime factors of \<open>N\<close>, the state after \<open>N\<close> steps is \<open>a\<close>
  again, and for every prime \<open>p\<close> in \<open>ps\<close> the states after \<open>m\<close> and after \<open>m + N div p\<close>
  steps differ.
\<close>

definition cofactor_differs :: "uint list list \<Rightarrow> nat \<Rightarrow> uint \<Rightarrow> nat \<Rightarrow> bool" where
  "cofactor_differs Ms m a p \<longleftrightarrow>
     m + (2 ^ m - 1) div p \<le> 2 ^ m - 1 \<and>
     apply_bits Ms (m + (2 ^ m - 1) div p) a \<noteq> apply_bits Ms m a"

definition check_with :: "uint list list \<Rightarrow> nat \<Rightarrow> uint \<Rightarrow> nat list \<Rightarrow> nat \<Rightarrow> bool" where
  "check_with Ms m a ps r \<longleftrightarrow>
     a AND (2 ^ m - 1) = a \<and>
     prod_list ps = 2 ^ m - 1 \<and>
     list_all (prime_upto r) ps \<and>
     apply_bits Ms (2 ^ m - 1) a = a \<and>
     list_all (cofactor_differs Ms m a) ps"

definition period_check :: "nat \<Rightarrow> uint \<Rightarrow> uint \<Rightarrow> nat list \<Rightarrow> nat \<Rightarrow> bool" where
  "period_check m g a ps r \<longleftrightarrow>
     check_with (mat_pows m (mat_of (lfsr_step g (2 ^ m - 1)) m)) m a ps r"

text \<open>The prime factors of \<open>2^m - 1\<close> for the register lengths of the default table, and
  the check for the row \<open>m\<close> of the table.\<close>

definition default_factors :: "nat \<Rightarrow> nat list" where
  "default_factors m =
     [[], [], [3], [7], [3, 5], [31], [3, 3, 7], [127], [3, 5, 17], [7, 73], [3, 11, 31],
      [23, 89], [3, 3, 5, 7, 13], [8191], [3, 43, 127], [7, 31, 151]] ! m"

definition default_check :: "nat \<Rightarrow> bool" where
  "default_check m \<longleftrightarrow>
     period_check m (ms_g (msequence_default ! m)) (ms_a (msequence_default ! m))
       (default_factors m) 91"

section \<open>Properties\<close>

subsection \<open>Bits and words\<close>

lemma advance_eq:
  "msequence_advance ms =
     (liquid_bdotprod (ms_v ms) (ms_g ms),
      ms\<lparr>ms_v := lfsr_step (ms_g ms) (ms_n ms) (ms_v ms),
         ms_b := liquid_bdotprod (ms_v ms) (ms_g ms)\<rparr>)"
  by (simp add: msequence_advance_def lfsr_step_def Let_def)

lemma xor_reduce_zero: "xor_reduce k 0 = False"
  by (induction k) simp_all

lemma parity_zero: "parity 0 = 0"
  by (simp add: parity_def xor_reduce_zero)

lemma parity_cases: "parity w = 0 \<or> parity w = 1"
  by (simp add: parity_def)

lemma bdotprod_zero: "liquid_bdotprod 0 g = 0"
  by (simp add: liquid_bdotprod_def parity_zero)

lemma lfsr_step_zero: "lfsr_step g n 0 = 0"
  by (simp add: lfsr_step_def bdotprod_zero)

lemma lfsr_step_le: "lfsr_step g n v \<le> n"
  unfolding lfsr_step_def by (rule word_and_le1)

lemma shift_in_bit:
  fixes acc :: uint
  shows "bit (push_bit 1 acc OR (x AND 1)) j =
     (if j = 0 then bit x 0 else j < 32 \<and> bit acc (j - Suc 0))"
  by (cases j) (auto simp add: bit_or_iff bit_and_iff bit_1_iff bit_push_bit_iff simp del: push_bit_Suc push_bit_of_Suc_0 dest: bit_imp_le_length)

lemma shift_in_bit_mult:
  fixes acc :: uint
  shows "bit (acc * 2 OR (x AND 1)) j =
     (if j = 0 then bit x 0 else j < 32 \<and> bit acc (j - Suc 0))"
  using shift_in_bit [of acc x j] by simp

lemma reverse_loop_bit:
  "bit (reverse_loop k acc x) i =
     (i < 32 \<and> (if i < k then bit x (k - 1 - i) else bit acc (i - k)))"
proof (induction k arbitrary: acc x i)
  case 0
  show ?case by (auto dest: bit_imp_le_length)
next
  case (Suc k)
  show ?case
    by (auto simp add: Suc.IH shift_in_bit_mult bit_drop_bit_eq Suc_diff_Suc less_Suc_eq)
qed

lemma reverse_loop_bit0:
  "k \<le> 32 \<Longrightarrow> bit (reverse_loop k 0 x) i = (i < k \<and> bit x (k - 1 - i))"
  by (auto simp add: reverse_loop_bit)

lemma bits_below_le_mask:
  fixes w :: uint
  assumes "\<And>i. bit w i \<Longrightarrow> i < k"
  shows "w \<le> 2 ^ k - 1"
proof -
  have "w AND mask k = w"
    using assms by (auto simp add: bit_eq_iff bit_simps)
  then have "w \<le> mask k"
    by (metis word_and_le1)
  then show ?thesis by (simp add: mask_eq_exp_minus_1)
qed

lemma reverse_loop_le: "k \<le> 32 \<Longrightarrow> reverse_loop k 0 x \<le> 2 ^ k - 1"
  by (rule bits_below_le_mask) (simp add: reverse_loop_bit0)

subsection \<open>Runs\<close>

lemma symbol_loop_advance_n:
  "symbol_loop k s ms =
     (foldl (\<lambda>s bt. push_bit 1 s OR bt) s (fst (advance_n k ms)), snd (advance_n k ms))"
  by (induction k arbitrary: s ms) (simp_all add: split_beta Let_def)

lemma advance_n_fst:
  "fst (advance_n k ms) =
     map (\<lambda>t. liquid_bdotprod ((lfsr_step (ms_g ms) (ms_n ms) ^^ t) (ms_v ms)) (ms_g ms)) [0..<k]"
proof (induction k arbitrary: ms)
  case 0
  show ?case by simp
next
  case (Suc k)
  have "[0..<Suc k] = 0 # map Suc [0..<k]"
    by (simp add: upt_conv_Cons map_Suc_upt del: upt_Suc)
  then show ?case
    by (simp add: split_beta Let_def advance_eq Suc.IH funpow_swap1 comp_def del: upt_Suc)
qed

lemma advance_n_snd:
  "snd (advance_n k ms) =
     (if k = 0 then ms
      else ms\<lparr>ms_v := (lfsr_step (ms_g ms) (ms_n ms) ^^ k) (ms_v ms),
              ms_b := liquid_bdotprod ((lfsr_step (ms_g ms) (ms_n ms) ^^ (k - 1)) (ms_v ms)) (ms_g ms)\<rparr>)"
  (is "_ = ?rhs k ms")
proof (induction k arbitrary: ms)
  case 0
  show ?case by simp
next
  case (Suc k)
  have "snd (advance_n (Suc k) ms) = snd (advance_n k (snd (msequence_advance ms)))"
    by (simp add: split_beta)
  also have "\<dots> = ?rhs k (snd (msequence_advance ms))"
    by (rule Suc.IH)
  also have "\<dots> = ?rhs (Suc k) ms"
    by (cases k) (simp_all add: advance_eq funpow_swap1)
  finally show ?case .
qed

lemma advance_n_config:
  "ms_m (snd (advance_n k ms)) = ms_m ms"
  "ms_g (snd (advance_n k ms)) = ms_g ms"
  "ms_a (snd (advance_n k ms)) = ms_a ms"
  "ms_n (snd (advance_n k ms)) = ms_n ms"
  "ms_v (snd (advance_n k ms)) = (lfsr_step (ms_g ms) (ms_n ms) ^^ k) (ms_v ms)"
  by (simp_all add: advance_n_snd)

lemma funpow_step_le: "v \<le> n \<Longrightarrow> (lfsr_step g n ^^ k) v \<le> n"
  by (cases k) (simp_all add: lfsr_step_le)

lemma apply_operation_config:
  "config_inv m g a n ms \<Longrightarrow> config_inv m g a n (apply_operation ms x)"
  by (cases x)
    (simp_all add: config_inv_def advance_eq msequence_generate_symbol_def
      symbol_loop_advance_n advance_n_config msequence_reset_def msequence_set_state_def)

lemma run_config: "config_inv m g a n ms \<Longrightarrow> config_inv m g a n (run ops ms)"
  unfolding run_def by (induction ops arbitrary: ms) (simp_all add: apply_operation_config)

lemma apply_operation_state_le:
  assumes "config_inv m g a n ms" "a \<le> n" "ms_v ms \<le> n" "state_arg_within n x"
  shows "ms_v (apply_operation ms x) \<le> n"
  using assms
  by (cases x)
    (simp_all add: config_inv_def advance_eq msequence_generate_symbol_def lfsr_step_le
      symbol_loop_advance_n advance_n_config msequence_reset_def msequence_set_state_def
      funpow_step_le)

lemma run_state_le:
  assumes "config_inv m g a n ms" "a \<le> n" "ms_v ms \<le> n"
    "\<forall>x \<in> set ops. state_arg_within n x"
  shows "ms_v (run ops ms) \<le> n"
  using assms unfolding run_def
proof (induction ops arbitrary: ms)
  case Nil
  then show ?case by simp
next
  case (Cons x ops)
  have "config_inv m g a n (apply_operation ms x)"
    using Cons.prems(1) by (rule apply_operation_config)
  moreover have "ms_v (apply_operation ms x) \<le> n"
    using Cons.prems by (intro apply_operation_state_le) simp_all
  ultimately show ?case
    using Cons.IH [of "apply_operation ms x"] Cons.prems by simp
qed

subsection \<open>Constructors\<close>

lemma create_Inr:
  "msequence_create m g a = Inr ms \<longleftrightarrow>
     2 \<le> m \<and> m \<le> 31 \<and>
     ms = \<lparr>ms_m = m, ms_g = drop_bit 1 g, ms_a = reverse_loop (unat m) 0 a,
           ms_n = 2 ^ unat m - 1, ms_v = reverse_loop (unat m) 0 a, ms_b = 0\<rparr>"
  by (auto simp add: msequence_create_def liquid_error_config_def Let_def
      LIQUID_MAX_MSEQUENCE_M_def LIQUID_MIN_MSEQUENCE_M_def push_bit_eq_mult not_less)

lemma create_isl:
  "isl (msequence_create m g a) \<longleftrightarrow> \<not> (2 \<le> m \<and> m \<le> 31)"
  by (auto simp add: msequence_create_def liquid_error_config_def Let_def
      LIQUID_MAX_MSEQUENCE_M_def LIQUID_MIN_MSEQUENCE_M_def not_less)

lemma small_word_cases:
  fixes m :: uint
  assumes "2 \<le> m" "m \<le> 15"
  shows "m \<in> {2, 3, 4, 5, 6, 7, 8, 9, 10, 11, 12, 13, 14, 15}"
proof -
  have "2 \<le> unat m" "unat m \<le> 15"
    using assms by (simp_all add: word_le_nat_alt)
  then have "unat m \<in> {2, 3, 4, 5, 6, 7, 8, 9, 10, 11, 12, 13, 14, 15}"
    by simp arith
  then have "(of_nat (unat m) :: uint) \<in> of_nat ` {2, 3, 4, 5, 6, 7, 8, 9, 10, 11, 12, 13, 14, 15}"
    by (rule imageI)
  then show ?thesis
    by simp
qed

lemma default_Inr:
  "msequence_create_default m = Inr ms \<longleftrightarrow>
     2 \<le> m \<and> m \<le> 15 \<and> ms = msequence_default ! unat m"
  by (auto simp add: msequence_create_default_def liquid_error_config_def
      LIQUID_MIN_MSEQUENCE_M_def not_less)

lemma default_row_facts:
  assumes "2 \<le> m" "m \<le> 15" and ms: "ms = msequence_default ! unat m"
  shows "ms_m ms = m" "ms_n ms = 2 ^ unat m - 1" "ms_v ms = ms_a ms"
    "ms_a ms = 2 ^ (unat m - 1)" "ms_a ms \<le> ms_n ms" "unat (ms_g ms) < 2 ^ unat m" "ms_b ms = 0"
  using small_word_cases [OF assms(1,2)] unfolding ms
  by (elim insertE emptyE; simp add: msequence_default_def row_def)+

lemma msb_pos_le: "msb_pos k x \<le> k"
  by (induction k) auto

lemma msb_pos_le_iff:
  "msb_pos k x \<le> t \<longleftrightarrow> (\<forall>i. t \<le> i \<and> i < k \<longrightarrow> \<not> bit x i)"
proof (induction k)
  case 0
  show ?case by simp
next
  case (Suc k)
  show ?case
    by (auto simp add: Suc.IH less_Suc_eq not_less_eq_eq)
qed

lemma unat_msb_index: "unat (liquid_msb_index g) = msb_pos 32 g"
proof -
  have "msb_pos 32 g < 2 ^ 32"
    using msb_pos_le [of 32 g] by simp
  then show ?thesis
    by (simp add: liquid_msb_index_def unat_of_nat)
qed

lemma bits_below_unat_less:
  fixes w :: uint
  assumes "\<And>i. bit w i \<Longrightarrow> i < k"
  shows "unat w < 2 ^ k"
proof -
  have "take_bit k w = w"
    using assms by (auto simp add: bit_eq_iff bit_simps)
  then have "unat w = take_bit k (unat w)"
    by (metis unsigned_take_bit_eq)
  then show ?thesis
    by (metis take_bit_nat_less_exp)
qed

lemma genpoly_eq:
  "msequence_create_genpoly g =
     (if msb_pos 32 g < 2
      then liquid_error_config ''msequence_create_genpoly(), invalid generator polynomial: 0x%x''
      else msequence_create (liquid_msb_index g - 1) g 1)"
  by (simp add: msequence_create_genpoly_def Let_def word_less_nat_alt unat_msb_index)

lemma unat_msb_index_pred:
  "1 \<le> msb_pos 32 g \<Longrightarrow> unat (liquid_msb_index g - 1) = msb_pos 32 g - 1"
  by (metis unat_msb_index unat_minus_one not_one_le_zero unat_0 One_nat_def)

lemma genpoly_Inr:
  "msequence_create_genpoly g = Inr ms \<longleftrightarrow>
     3 \<le> msb_pos 32 g \<and> msequence_create (liquid_msb_index g - 1) g 1 = Inr ms"
proof (cases "msb_pos 32 g < 2")
  case True
  then show ?thesis
    by (simp add: genpoly_eq liquid_error_config_def)
next
  case False
  then have u: "unat (liquid_msb_index g - 1) = msb_pos 32 g - 1"
    by (intro unat_msb_index_pred) simp
  have "msequence_create (liquid_msb_index g - 1) g 1 = Inr ms \<Longrightarrow> 3 \<le> msb_pos 32 g"
    using u by (auto simp add: create_Inr word_le_nat_alt)
  with False show ?thesis
    by (auto simp add: genpoly_eq)
qed

subsection \<open>Unfolding the recursions at numerals\<close>

lemma reverse_loop_numeral:
  "reverse_loop (numeral k) acc x =
     reverse_loop (pred_numeral k) (push_bit 1 acc OR (x AND 0x01)) (drop_bit 1 x)"
  by (simp add: numeral_eq_Suc)

lemma xor_reduce_numeral:
  "xor_reduce (numeral k) w = (bit w (pred_numeral k) \<noteq> xor_reduce (pred_numeral k) w)"
  by (simp add: numeral_eq_Suc)

lemma msb_pos_numeral:
  "msb_pos (numeral k) x =
     (if bit x (pred_numeral k) then numeral k else msb_pos (pred_numeral k) x)"
  by (simp add: numeral_eq_Suc)

lemma advance_n_numeral:
  "advance_n (numeral k) ms =
     (fst (msequence_advance ms) # fst (advance_n (pred_numeral k) (snd (msequence_advance ms))),
      snd (advance_n (pred_numeral k) (snd (msequence_advance ms))))"
  by (simp add: numeral_eq_Suc split_beta)

lemma symbol_loop_numeral:
  "symbol_loop (numeral k) s ms =
     symbol_loop (pred_numeral k) (push_bit 1 s OR fst (msequence_advance ms))
       (snd (msequence_advance ms))"
  by (simp add: numeral_eq_Suc split_beta)

lemmas eval_simps =
  reverse_loop_numeral xor_reduce_numeral msb_pos_numeral advance_n_numeral symbol_loop_numeral
  parity_def liquid_bdotprod_def lfsr_step_def advance_eq run_def
  msequence_reset_def msequence_set_state_def msequence_generate_symbol_def

lemma xor_reduce_card: "xor_reduce k w = odd (card {i. i < k \<and> bit w i})"
proof (induction k)
  case 0
  show ?case by simp
next
  case (Suc k)
  have fin: "finite {i. i < k \<and> bit w i}" by simp
  have "{i. i < Suc k \<and> bit w i} =
      (if bit w k then insert k {i. i < k \<and> bit w i} else {i. i < k \<and> bit w i})"
    by (auto simp add: less_Suc_eq)
  then show ?case
    using fin by (simp add: Suc.IH)
qed

lemma parity_card: "parity w = (if odd (card {i. bit w i}) then 1 else 0)"
proof -
  have "{i. i < 32 \<and> bit w i} = {i. bit w i}"
    by (auto dest: bit_imp_le_length)
  then show ?thesis
    by (simp add: parity_def xor_reduce_card)
qed

lemma create_facts:
  assumes "msequence_create m g a = Inr ms"
  shows "ms_m ms = m" "2 \<le> m" "m \<le> 31" "ms_n ms = 2 ^ unat m - 1" "ms_v ms = ms_a ms"
    "ms_a ms \<le> ms_n ms" "ms_g ms = drop_bit 1 g" "ms_a ms = reverse_loop (unat m) 0 a"
proof -
  from assms have *: "2 \<le> m" "m \<le> 31"
    "ms = \<lparr>ms_m = m, ms_g = drop_bit 1 g, ms_a = reverse_loop (unat m) 0 a,
           ms_n = 2 ^ unat m - 1, ms_v = reverse_loop (unat m) 0 a, ms_b = 0\<rparr>"
    by (simp_all add: create_Inr)
  from *(2) have "unat m \<le> 32"
    by (simp add: word_le_nat_alt)
  then have "reverse_loop (unat m) 0 a \<le> 2 ^ unat m - 1"
    by (rule reverse_loop_le)
  with * show "ms_m ms = m" "2 \<le> m" "m \<le> 31" "ms_n ms = 2 ^ unat m - 1" "ms_v ms = ms_a ms"
    "ms_a ms \<le> ms_n ms" "ms_g ms = drop_bit 1 g" "ms_a ms = reverse_loop (unat m) 0 a"
    by simp_all
qed

lemma constructed_facts:
  assumes "constructed ms"
  shows "ms_n ms = 2 ^ unat (ms_m ms) - 1 \<and> ms_v ms = ms_a ms \<and> ms_a ms \<le> ms_n ms"
  using assms
proof cases
  case (by_create m g a)
  then show ?thesis
    using create_facts [of m g a ms] by simp
next
  case (by_genpoly g)
  then have "msequence_create (liquid_msb_index g - 1) g 1 = Inr ms"
    by (simp add: genpoly_Inr)
  then show ?thesis
    using create_facts [of "liquid_msb_index g - 1" g 1 ms] by simp
next
  case (by_default m)
  then have "2 \<le> m" "m \<le> 15" "ms = msequence_default ! unat m"
    by (simp_all add: default_Inr)
  from default_row_facts(1,2,3,5) [OF this] show ?thesis
    by simp
qed

lemma constructed_config:
  "constructed ms \<Longrightarrow> config_inv (ms_m ms) (ms_g ms) (ms_a ms) (2 ^ unat (ms_m ms) - 1) ms"
  by (simp add: config_inv_def constructed_facts)

subsection \<open>Advance\<close>

text \<open>
  Claim C1. On every object that a constructor returned, after any sequence of
  operations, one call of \<^verbatim>\<open>msequence_advance\<close> computes the feedback bit as the parity
  of \<open>v AND g\<close> (the number of positions set in both, modulo 2), replaces \<open>v\<close> by
  \<open>((v << 1) OR bit) AND (2^m - 1)\<close>, stores the bit in \<open>b\<close> and returns it; the mask
  \<open>n\<close> of the object is \<open>2^m - 1\<close>.
\<close>

theorem advance_feedback_shift_mask:
  assumes "constructed ms0"
  shows "(let ms = run ops ms0;
              fb = parity (ms_v ms AND ms_g ms)
          in msequence_advance ms =
               (fb, ms\<lparr>ms_v := (push_bit 1 (ms_v ms) OR fb) AND (2 ^ unat (ms_m ms) - 1),
                       ms_b := fb\<rparr>)
             \<and> ms_n ms = 2 ^ unat (ms_m ms) - 1
             \<and> fb = (if odd (card {i. bit (ms_v ms) i \<and> bit (ms_g ms) i}) then 1 else 0))"
proof -
  have "config_inv (ms_m ms0) (ms_g ms0) (ms_a ms0) (2 ^ unat (ms_m ms0) - 1) (run ops ms0)"
    using assms by (intro run_config constructed_config)
  then have "ms_n (run ops ms0) = 2 ^ unat (ms_m (run ops ms0)) - 1"
    by (simp add: config_inv_def)
  then show ?thesis
    by (simp add: Let_def advance_eq lfsr_step_def liquid_bdotprod_def parity_card bit_and_iff)
qed

lemma constructed_example:
  "constructed \<lparr>ms_m = 4, ms_g = 9, ms_a = 8, ms_n = 15, ms_v = 8, ms_b = 0\<rparr>"
  by (rule by_create [where m = 4 and g = "0x13" and a = 1]) (simp add: create_Inr eval_simps)

theorem advance_feedback_shift_mask_witness:
  "constructed \<lparr>ms_m = 4, ms_g = 9, ms_a = 8, ms_n = 15, ms_v = 8, ms_b = 0\<rparr> \<and>
   msequence_advance (run [Advance, Advance] \<lparr>ms_m = 4, ms_g = 9, ms_a = 8, ms_n = 15, ms_v = 8, ms_b = 0\<rparr>)
     = (1, \<lparr>ms_m = 4, ms_g = 9, ms_a = 8, ms_n = 15, ms_v = 7, ms_b = 1\<rparr>)"
  using advance_feedback_shift_mask [OF constructed_example, of "[Advance, Advance]"]
  by (simp add: constructed_example eval_simps Let_def)

subsection \<open>Register bound\<close>

text \<open>
  \<^verbatim>\<open>msequence_set_state\<close> stores its argument as it is: on the default object for
  \<open>m = 4\<close>, setting the state to \<open>0xFFFFFFFF\<close> leaves a register above the sequence
  length 15.
\<close>

theorem state_unmasked_counterexample:
  "constructed \<lparr>ms_m = 4, ms_g = 9, ms_a = 8, ms_n = 15, ms_v = 8, ms_b = 0\<rparr> \<and>
   \<not> ms_v (run [SetState 0xFFFFFFFF] \<lparr>ms_m = 4, ms_g = 9, ms_a = 8, ms_n = 15, ms_v = 8, ms_b = 0\<rparr>)
      \<le> ms_n (run [SetState 0xFFFFFFFF] \<lparr>ms_m = 4, ms_g = 9, ms_a = 8, ms_n = 15, ms_v = 8, ms_b = 0\<rparr>)"
  by (simp add: constructed_example run_def msequence_set_state_def)

text \<open>
  Claim C3, amended. On a constructed object, after any sequence of advance, symbol,
  reset and set-state operations in which every set-state argument is at most the sequence
  length, the register is between 0 and the sequence length, which is \<open>2^m - 1\<close>.
\<close>

theorem state_within_sequence_length:
  assumes "constructed ms" "\<forall>x \<in> set ops. state_arg_within (ms_n ms) x"
  shows "0 \<le> ms_v (run ops ms) \<and> ms_v (run ops ms) \<le> ms_n (run ops ms) \<and>
         ms_n (run ops ms) = 2 ^ unat (ms_m (run ops ms)) - 1"
proof -
  let ?n = "2 ^ unat (ms_m ms) - 1 :: uint"
  have n: "ms_n ms = ?n" and va: "ms_v ms = ms_a ms" and a: "ms_a ms \<le> ms_n ms"
    using constructed_facts [OF assms(1)] by auto
  have c: "config_inv (ms_m ms) (ms_g ms) (ms_a ms) ?n ms"
    using assms(1) by (rule constructed_config)
  have "ms_v (run ops ms) \<le> ?n"
    using c a va assms(2) n by (intro run_state_le [OF c]) simp_all
  moreover have "config_inv (ms_m ms) (ms_g ms) (ms_a ms) ?n (run ops ms)"
    using c by (rule run_config)
  ultimately show ?thesis
    by (simp add: config_inv_def)
qed

theorem state_within_sequence_length_witness:
  "constructed \<lparr>ms_m = 4, ms_g = 9, ms_a = 8, ms_n = 15, ms_v = 8, ms_b = 0\<rparr> \<and>
   state_arg_within (ms_n \<lparr>ms_m = 4, ms_g = 9, ms_a = 8, ms_n = 15, ms_v = 8, ms_b = 0\<rparr>) Advance \<and>
   state_arg_within (ms_n \<lparr>ms_m = 4, ms_g = 9, ms_a = 8, ms_n = 15, ms_v = 8, ms_b = 0\<rparr>) (SetState 9) \<and>
   state_arg_within (ms_n \<lparr>ms_m = 4, ms_g = 9, ms_a = 8, ms_n = 15, ms_v = 8, ms_b = 0\<rparr>) (GenerateSymbol 3) \<and>
   state_arg_within (ms_n \<lparr>ms_m = 4, ms_g = 9, ms_a = 8, ms_n = 15, ms_v = 8, ms_b = 0\<rparr>) Reset \<and>
   state_arg_within (ms_n \<lparr>ms_m = 4, ms_g = 9, ms_a = 8, ms_n = 15, ms_v = 8, ms_b = 0\<rparr>) (SetState 15) \<and>
   ms_v (run [Advance, SetState 9, GenerateSymbol 3, Reset, SetState 15] \<lparr>ms_m = 4, ms_g = 9, ms_a = 8, ms_n = 15, ms_v = 8, ms_b = 0\<rparr>)
     \<le> ms_n (run [Advance, SetState 9, GenerateSymbol 3, Reset, SetState 15] \<lparr>ms_m = 4, ms_g = 9, ms_a = 8, ms_n = 15, ms_v = 8, ms_b = 0\<rparr>)"
proof -
  have h: "\<forall>x \<in> set [Advance, SetState 9, GenerateSymbol 3, Reset, SetState 15].
      state_arg_within (ms_n \<lparr>ms_m = 4, ms_g = 9, ms_a = 8, ms_n = 15, ms_v = 8, ms_b = 0\<rparr>) x"
    by simp
  have "ms_v (run [Advance, SetState 9, GenerateSymbol 3, Reset, SetState 15] \<lparr>ms_m = 4, ms_g = 9, ms_a = 8, ms_n = 15, ms_v = 8, ms_b = 0\<rparr>)
     \<le> ms_n (run [Advance, SetState 9, GenerateSymbol 3, Reset, SetState 15] \<lparr>ms_m = 4, ms_g = 9, ms_a = 8, ms_n = 15, ms_v = 8, ms_b = 0\<rparr>)"
    using state_within_sequence_length [OF constructed_example h] by blast
  then show ?thesis
    using constructed_example by simp
qed

subsection \<open>Polynomial width\<close>

text \<open>
  The explicit constructor stores \<open>g >> 1\<close> unmasked: for \<open>m = 2\<close> and \<open>g = 0xF\<close> the
  stored polynomial is 7, which is not below \<open>2^2\<close>.
\<close>

theorem polynomial_width_counterexample:
  "msequence_create 2 0xF 1 = Inr \<lparr>ms_m = 2, ms_g = 7, ms_a = 2, ms_n = 3, ms_v = 2, ms_b = 0\<rparr> \<and>
   \<not> unat (ms_g \<lparr>ms_m = 2, ms_g = 7, ms_a = 2, ms_n = 3, ms_v = 2, ms_b = 0\<rparr>)
       < 2 ^ unat (ms_m \<lparr>ms_m = 2, ms_g = 7, ms_a = 2, ms_n = 3, ms_v = 2, ms_b = 0\<rparr>)"
  by (simp add: create_Inr eval_simps)

lemma genpoly_width:
  assumes "msequence_create_genpoly g = Inr ms"
  shows "unat (ms_g ms) < 2 ^ unat (ms_m ms)"
proof -
  from assms have t: "3 \<le> msb_pos 32 g"
    and c: "msequence_create (liquid_msb_index g - 1) g 1 = Inr ms"
    by (simp_all add: genpoly_Inr)
  have m: "unat (ms_m ms) = msb_pos 32 g - 1"
    using create_facts(1) [OF c] t by (simp add: unat_msb_index_pred)
  have "i < msb_pos 32 g - 1" if "bit (drop_bit 1 g) i" for i
  proof (rule ccontr)
    assume "\<not> i < msb_pos 32 g - 1"
    then have "msb_pos 32 g \<le> Suc i" by simp
    moreover have "bit g (Suc i)"
      using that by (simp add: bit_drop_bit_eq)
    moreover from this have "Suc i < 32"
      by (auto dest: bit_imp_le_length)
    ultimately show False
      using msb_pos_le_iff [of 32 g "msb_pos 32 g"] by auto
  qed
  then have "unat (drop_bit 1 g) < 2 ^ (msb_pos 32 g - 1)"
    by (rule bits_below_unat_less)
  then show ?thesis
    using create_facts(7) [OF c] m by simp
qed

text \<open>
  Claim C4, amended. The explicit constructor stores \<open>g >> 1\<close>, which is below
  \<open>2^m\<close> exactly when \<open>g\<close> is below \<open>2^(m+1)\<close>. The objects returned by the
  constructor from a generator polynomial and by the default constructor have a stored
  polynomial below \<open>2^m\<close>.
\<close>

theorem polynomial_width:
  "(msequence_create m g a = Inr ms \<longrightarrow>
      ms_g ms = drop_bit 1 g \<and>
      (unat (ms_g ms) < 2 ^ unat (ms_m ms) \<longleftrightarrow> unat g < 2 ^ (unat (ms_m ms) + 1))) \<and>
   (msequence_create_genpoly g = Inr ms \<longrightarrow> unat (ms_g ms) < 2 ^ unat (ms_m ms)) \<and>
   (msequence_create_default m = Inr ms \<longrightarrow> unat (ms_g ms) < 2 ^ unat (ms_m ms))"
proof (intro conjI impI)
  assume c: "msequence_create m g a = Inr ms"
  show "ms_g ms = drop_bit 1 g"
    using c by (rule create_facts)
  have "unat (drop_bit 1 g) = unat g div 2"
    by (simp add: drop_bit_eq_div unat_div)
  then show "unat (ms_g ms) < 2 ^ unat (ms_m ms) \<longleftrightarrow> unat g < 2 ^ (unat (ms_m ms) + 1)"
    using create_facts(7) [OF c] by simp arith
next
  assume "msequence_create_genpoly g = Inr ms"
  then show "unat (ms_g ms) < 2 ^ unat (ms_m ms)"
    by (rule genpoly_width)
next
  assume "msequence_create_default m = Inr ms"
  then have "2 \<le> m" "m \<le> 15" "ms = msequence_default ! unat m"
    by (simp_all add: default_Inr)
  from default_row_facts(1,6) [OF this] show "unat (ms_g ms) < 2 ^ unat (ms_m ms)"
    by simp
qed

theorem polynomial_width_witness:
  "msequence_create 4 0x13 1 = Inr \<lparr>ms_m = 4, ms_g = 9, ms_a = 8, ms_n = 15, ms_v = 8, ms_b = 0\<rparr> \<and>
   msequence_create_genpoly 0x13 = Inr \<lparr>ms_m = 4, ms_g = 9, ms_a = 8, ms_n = 15, ms_v = 8, ms_b = 0\<rparr> \<and>
   msequence_create_default 4 = Inr \<lparr>ms_m = 4, ms_g = 9, ms_a = 8, ms_n = 15, ms_v = 8, ms_b = 0\<rparr> \<and>
   unat (9 :: uint) < 2 ^ unat (4 :: uint) \<and> unat (0x13 :: uint) < 2 ^ (unat (4 :: uint) + 1)"
proof -
  have 1: "msequence_create 4 0x13 1 = Inr \<lparr>ms_m = 4, ms_g = 9, ms_a = 8, ms_n = 15, ms_v = 8, ms_b = 0\<rparr>"
    by (simp add: create_Inr eval_simps)
  have 2: "msequence_create_genpoly 0x13 = Inr \<lparr>ms_m = 4, ms_g = 9, ms_a = 8, ms_n = 15, ms_v = 8, ms_b = 0\<rparr>"
    by (simp add: genpoly_eq 1 liquid_msb_index_def eval_simps)
  have 3: "msequence_create_default 4 = Inr \<lparr>ms_m = 4, ms_g = 9, ms_a = 8, ms_n = 15, ms_v = 8, ms_b = 0\<rparr>"
    by (simp add: default_Inr msequence_default_def row_def)
  show ?thesis
    using polynomial_width [of 4 "0x13" 1 "\<lparr>ms_m = 4, ms_g = 9, ms_a = 8, ms_n = 15, ms_v = 8, ms_b = 0\<rparr>"] 1 2 3
    by simp
qed

subsection \<open>Seed reversal\<close>

text \<open>
  Claim C5. For \<open>m\<close> in \<open>[2,31]\<close> the explicit constructor succeeds and stores as
  initial state the reversal of the low \<open>m\<close> bits of the seed: bit \<open>i\<close> of the stored
  value is bit \<open>m - 1 - i\<close> of the seed for \<open>i < m\<close>, and no bit from \<open>m\<close> up is set.
  With \<open>m = 4\<close> the seed \<open>0001\<close> is stored as \<open>1000\<close> and \<open>1000\<close> as \<open>0001\<close>.
\<close>

theorem seed_bit_reversal:
  "(2 \<le> m \<and> m \<le> 31 \<longrightarrow>
      (\<exists>ms. msequence_create m g a = Inr ms \<and>
         (\<forall>i. bit (ms_a ms) i \<longleftrightarrow> i < unat m \<and> bit a (unat m - 1 - i)))) \<and>
   (\<exists>ms. msequence_create 4 g 0b0001 = Inr ms \<and> ms_a ms = 0b1000) \<and>
   (\<exists>ms. msequence_create 4 g 0b1000 = Inr ms \<and> ms_a ms = 0b0001)"
proof (intro conjI impI)
  assume m: "2 \<le> m \<and> m \<le> 31"
  then have "unat m \<le> 32"
    by (simp add: word_le_nat_alt)
  then show "\<exists>ms. msequence_create m g a = Inr ms \<and>
         (\<forall>i. bit (ms_a ms) i \<longleftrightarrow> i < unat m \<and> bit a (unat m - 1 - i))"
    using m by (simp add: create_Inr reverse_loop_bit0)
next
  show "\<exists>ms. msequence_create 4 g 0b0001 = Inr ms \<and> ms_a ms = 0b1000"
    by (simp add: create_Inr eval_simps)
next
  show "\<exists>ms. msequence_create 4 g 0b1000 = Inr ms \<and> ms_a ms = 0b0001"
    by (simp add: create_Inr eval_simps)
qed

theorem seed_bit_reversal_witness:
  "(2 :: uint) \<le> 5 \<and> (5 :: uint) \<le> 31 \<and>
   msequence_create 5 0x25 0b00110 =
     Inr \<lparr>ms_m = 5, ms_g = 0x12, ms_a = 0b01100, ms_n = 31, ms_v = 0b01100, ms_b = 0\<rparr> \<and>
   bit (0b01100 :: uint) 3 = bit (0b00110 :: uint) (unat (5 :: uint) - 1 - 3) \<and>
   bit (0b01100 :: uint) 0 = bit (0b00110 :: uint) (unat (5 :: uint) - 1 - 0)"
  using seed_bit_reversal [of 5 "0x25" "0b00110"]
  by (simp add: create_Inr eval_simps)

subsection \<open>Construction from a generator polynomial\<close>

lemma unat_less_bits:
  fixes w :: uint
  assumes "unat w < 2 ^ k" "bit w i"
  shows "i < k"
proof -
  have "take_bit k (unat w) = unat w"
    using assms(1) by (simp add: take_bit_nat_eq_self)
  moreover have "bit (unat w) i"
    using assms(2) by (simp add: bit_unsigned_iff)
  ultimately have "bit (take_bit k (unat w)) i"
    by simp
  then show ?thesis
    by (simp add: bit_take_bit_iff)
qed

lemma msb_pos_less_3_iff: "msb_pos 32 g < 3 \<longleftrightarrow> g < 4"
proof -
  have "msb_pos 32 g < 3 \<longleftrightarrow> msb_pos 32 g \<le> 2" by auto
  also have "\<dots> \<longleftrightarrow> (\<forall>i. 2 \<le> i \<and> i < 32 \<longrightarrow> \<not> bit g i)"
    by (rule msb_pos_le_iff)
  also have "\<dots> \<longleftrightarrow> unat g < 2 ^ 2"
  proof
    assume *: "\<forall>i. 2 \<le> i \<and> i < 32 \<longrightarrow> \<not> bit g i"
    have "i < 2" if "bit g i" for i
      using * that bit_imp_le_length [OF that] by (auto simp add: not_le [symmetric])
    then show "unat g < 2 ^ 2"
      by (rule bits_below_unat_less)
  next
    assume "unat g < 2 ^ 2"
    then show "\<forall>i. 2 \<le> i \<and> i < 32 \<longrightarrow> \<not> bit g i"
      using unat_less_bits [of g 2] by fastforce
  qed
  also have "\<dots> \<longleftrightarrow> g < 4"
    by (simp add: word_less_nat_alt)
  finally show ?thesis .
qed

text \<open>
  Claim C6. \<^verbatim>\<open>msequence_create_genpoly\<close> returns the error value exactly when the
  index of the most significant bit of \<open>g\<close> minus one is below 2, which is exactly when
  \<open>g\<close> has fewer than three significant bits (\<open>g < 4\<close>); otherwise it returns what
  \<^verbatim>\<open>msequence_create\<close> returns for that length, \<open>g\<close> and the seed 1, and that is an
  object.
\<close>

theorem genpoly_error_iff:
  "(isl (msequence_create_genpoly g) \<longleftrightarrow> int (unat (liquid_msb_index g)) - 1 < 2) \<and>
   (int (unat (liquid_msb_index g)) - 1 < 2 \<longleftrightarrow> g < 4) \<and>
   (\<not> int (unat (liquid_msb_index g)) - 1 < 2 \<longrightarrow>
      msequence_create_genpoly g = msequence_create (liquid_msb_index g - 1) g 1 \<and>
      \<not> isl (msequence_create (liquid_msb_index g - 1) g 1))"
proof -
  have le: "msb_pos 32 g \<le> 32"
    by (rule msb_pos_le)
  have a: "int (unat (liquid_msb_index g)) - 1 < 2 \<longleftrightarrow> msb_pos 32 g < 3"
    by (auto simp add: unat_msb_index)
  have b: "\<not> isl (msequence_create (liquid_msb_index g - 1) g 1)" if "3 \<le> msb_pos 32 g"
    using that le by (simp add: create_isl word_le_nat_alt unat_msb_index_pred) arith
  have c: "isl (msequence_create (liquid_msb_index g - 1) g 1)" if "msb_pos 32 g = 2"
    using that by (simp add: create_isl word_le_nat_alt unat_msb_index_pred)
  have d: "isl (msequence_create_genpoly g) \<longleftrightarrow> msb_pos 32 g < 3"
  proof (cases "msb_pos 32 g < 2")
    case True
    then show ?thesis by (simp add: genpoly_eq liquid_error_config_def)
  next
    case False
    then show ?thesis
      using b c by (cases "msb_pos 32 g = 2") (auto simp add: genpoly_eq)
  qed
  show ?thesis
  proof (intro conjI impI)
    show "isl (msequence_create_genpoly g) \<longleftrightarrow> int (unat (liquid_msb_index g)) - 1 < 2"
      unfolding a by (rule d)
    show "int (unat (liquid_msb_index g)) - 1 < 2 \<longleftrightarrow> g < 4"
      unfolding a by (rule msb_pos_less_3_iff)
    assume "\<not> int (unat (liquid_msb_index g)) - 1 < 2"
    then have 3: "3 \<le> msb_pos 32 g"
      unfolding a by simp
    then show "msequence_create_genpoly g = msequence_create (liquid_msb_index g - 1) g 1"
      by (simp add: genpoly_eq)
    from 3 show "\<not> isl (msequence_create (liquid_msb_index g - 1) g 1)"
      by (rule b)
  qed
qed

theorem genpoly_error_iff_witness:
  "\<not> int (unat (liquid_msb_index 0x13)) - 1 < 2 \<and>
   msequence_create_genpoly 0x13 = msequence_create 4 0x13 1 \<and>
   \<not> isl (msequence_create 4 0x13 1) \<and>
   isl (msequence_create_genpoly 3) \<and> int (unat (liquid_msb_index 3)) - 1 < 2"
proof -
  have "liquid_msb_index 0x13 = 5" "liquid_msb_index 3 = 2"
    by (simp_all add: liquid_msb_index_def eval_simps)
  then show ?thesis
    using genpoly_error_iff [of "0x13"] genpoly_error_iff [of 3] by simp
qed

subsection \<open>Reset\<close>

text \<open>
  Claim C7. On a constructed object, \<open>K\<close> advances followed by a reset and \<open>N\<close>
  advances produce the same \<open>N\<close> bits as \<open>N\<close> advances right after construction; the
  reset puts the initial state back into the register.
\<close>

theorem reset_replays_stream:
  assumes "constructed ms"
  shows "fst (advance_n N (msequence_reset (snd (advance_n K ms)))) = fst (advance_n N ms) \<and>
         ms_v (msequence_reset (snd (advance_n K ms))) = ms_a ms"
proof -
  have "ms_v ms = ms_a ms"
    using constructed_facts [OF assms] by simp
  then show ?thesis
    by (simp add: advance_n_fst msequence_reset_def advance_n_config)
qed

theorem reset_replays_stream_witness:
  "constructed \<lparr>ms_m = 4, ms_g = 9, ms_a = 8, ms_n = 15, ms_v = 8, ms_b = 0\<rparr> \<and>
   fst (advance_n 5 (msequence_reset (snd (advance_n 3
          \<lparr>ms_m = 4, ms_g = 9, ms_a = 8, ms_n = 15, ms_v = 8, ms_b = 0\<rparr>)))) = [1, 1, 1, 1, 0] \<and>
   fst (advance_n 5 \<lparr>ms_m = 4, ms_g = 9, ms_a = 8, ms_n = 15, ms_v = 8, ms_b = 0\<rparr>) = [1, 1, 1, 1, 0]"
proof -
  have "fst (advance_n 5 \<lparr>ms_m = 4, ms_g = 9, ms_a = 8, ms_n = 15, ms_v = 8, ms_b = 0\<rparr>) = [1, 1, 1, 1, 0]"
    by (simp add: eval_simps)
  then show ?thesis
    using reset_replays_stream [OF constructed_example, of 5 3] constructed_example by simp
qed

subsection \<open>Symbols\<close>

lemma accumulate_bit:
  fixes s :: uint
  assumes "\<forall>b \<in> set bs. b = 0 \<or> b = 1" "j < 32"
  shows "bit (foldl (\<lambda>s bt. push_bit 1 s OR bt) s bs) j =
     (if j < length bs then bs ! (length bs - 1 - j) = 1 else bit s (j - length bs))"
proof -
  define f :: "uint \<Rightarrow> uint \<Rightarrow> uint" where "f = (\<lambda>s bt. push_bit 1 s OR bt)"
  have step: "bit (f s b) i = (if i = 0 then b = 1 else i < 32 \<and> bit s (i - Suc 0))"
    if "b = 0 \<or> b = 1" for s b i
    using that shift_in_bit [of s b i] by (auto simp add: f_def bit_1_iff)
  have "bit (foldl f s bs) j =
     (if j < length bs then bs ! (length bs - 1 - j) = 1 else bit s (j - length bs))"
    using assms
  proof (induction bs arbitrary: s)
    case Nil
    show ?case by simp
  next
    case (Cons b bs)
    have b: "b = 0 \<or> b = 1"
      using Cons.prems by simp
    have "bit (foldl f (f s b) bs) j =
        (if j < length bs then bs ! (length bs - 1 - j) = 1 else bit (f s b) (j - length bs))"
      using Cons.prems by (intro Cons.IH) simp_all
    then show ?case
      using Cons.prems(2) by (auto simp add: step [OF b] nth_Cons' Suc_diff_Suc less_Suc_eq)
  qed
  then show ?thesis
    by (simp add: f_def)
qed

lemma advance_n_bits: "\<forall>b \<in> set (fst (advance_n k ms)). b = 0 \<or> b = 1"
  by (auto simp add: advance_n_fst liquid_bdotprod_def parity_def)

lemma length_advance_n: "length (fst (advance_n k ms)) = k"
  by (simp add: advance_n_fst)

lemma advance_n_first: "fst (advance_n (Suc k) ms) ! 0 = fst (msequence_advance ms)"
  by (simp add: split_beta)

text \<open>
  Claim C8, as stated for every number of bits, fails above the width of the result: with
  33 bits per symbol on the default object for \<open>m = 4\<close> the first advance returns 1, but
  the 32-bit symbol has no bit 32 to hold it; the first bit has been shifted out.
\<close>

theorem symbol_first_bit_lost_counterexample:
  "constructed \<lparr>ms_m = 4, ms_g = 9, ms_a = 8, ms_n = 15, ms_v = 8, ms_b = 0\<rparr> \<and>
   unat (33 :: uint) = 33 \<and>
   fst (advance_n 33 \<lparr>ms_m = 4, ms_g = 9, ms_a = 8, ms_n = 15, ms_v = 8, ms_b = 0\<rparr>) ! 0 = 1 \<and>
   \<not> bit (fst (msequence_generate_symbol \<lparr>ms_m = 4, ms_g = 9, ms_a = 8, ms_n = 15, ms_v = 8, ms_b = 0\<rparr> 33)) (33 - 1 - 0)"
proof -
  have e: "(33 :: nat) = Suc 32"
    by simp
  have "fst (msequence_advance \<lparr>ms_m = 4, ms_g = 9, ms_a = 8, ms_n = 15, ms_v = 8, ms_b = 0\<rparr>) = 1"
    by (simp add: eval_simps)
  then have 1: "fst (advance_n 33 \<lparr>ms_m = 4, ms_g = 9, ms_a = 8, ms_n = 15, ms_v = 8, ms_b = 0\<rparr>) ! 0 = 1"
    unfolding e by (simp only: advance_n_first)
  have 2: "\<not> bit w (33 - 1 - 0)" for w :: uint
    by (auto dest: bit_imp_le_length)
  have 3: "unat (33 :: uint) = 33"
    by simp
  show ?thesis
    using constructed_example 1 2 3 by blast
qed

text \<open>
  Claim C8, amended. \<^verbatim>\<open>msequence_generate_symbol\<close> with \<open>k\<close> bits per symbol returns the
  value accumulated in the 32-bit result from \<open>k\<close> successive advances by shifting left
  and OR-ing each bit in, and leaves the object as those \<open>k\<close> advances leave it. For
  \<open>k\<close> at most 32, bit \<open>j\<close> of the symbol is the bit of advance number \<open>k - 1 - j\<close>, so
  the first bit is the most significant of the \<open>k\<close>-bit value. For \<open>k = 3\<close> the symbol is
  \<open>b1 b2 b3\<close> with \<open>b1\<close> on top.
\<close>

theorem symbol_accumulates_msb_first:
  "msequence_generate_symbol ms bps =
     (foldl (\<lambda>s bt. push_bit 1 s OR bt) 0 (fst (advance_n (unat bps) ms)),
      snd (advance_n (unat bps) ms)) \<and>
   (unat bps \<le> 32 \<longrightarrow>
     (\<forall>j < unat bps. bit (fst (msequence_generate_symbol ms bps)) j
         \<longleftrightarrow> fst (advance_n (unat bps) ms) ! (unat bps - 1 - j) = 1)) \<and>
   (let (b1, ms1) = msequence_advance ms;
        (b2, ms2) = msequence_advance ms1;
        (b3, ms3) = msequence_advance ms2
    in msequence_generate_symbol ms 3 = (push_bit 2 b1 OR push_bit 1 b2 OR b3, ms3))"
proof (intro conjI)
  show eq: "msequence_generate_symbol ms bps =
     (foldl (\<lambda>s bt. push_bit 1 s OR bt) 0 (fst (advance_n (unat bps) ms)),
      snd (advance_n (unat bps) ms))"
    by (simp add: msequence_generate_symbol_def symbol_loop_advance_n)
  show "unat bps \<le> 32 \<longrightarrow>
     (\<forall>j < unat bps. bit (fst (msequence_generate_symbol ms bps)) j
         \<longleftrightarrow> fst (advance_n (unat bps) ms) ! (unat bps - 1 - j) = 1)"
    using accumulate_bit [where bs = "fst (advance_n (unat bps) ms)" and s = 0, OF advance_n_bits]
    by (simp add: eq length_advance_n)
  show "let (b1, ms1) = msequence_advance ms;
        (b2, ms2) = msequence_advance ms1;
        (b3, ms3) = msequence_advance ms2
    in msequence_generate_symbol ms 3 = (push_bit 2 b1 OR push_bit 1 b2 OR b3, ms3)"
  proof -
    have p: "push_bit 1 (push_bit 1 (push_bit 1 0 OR b1) OR b2) OR b3
        = push_bit 2 b1 OR push_bit 1 b2 OR b3" for b1 b2 b3 :: uint
      by (simp add: numeral_2_eq_2 or.assoc del: push_bit_Suc push_bit_of_Suc_0)
    have "msequence_generate_symbol ms 3 = symbol_loop 3 0 ms"
      by (simp add: msequence_generate_symbol_def)
    then show ?thesis
      by (simp only: symbol_loop_numeral pred_numeral_simps BitM.simps numeral_One
          One_nat_def symbol_loop.simps split_beta Let_def p [unfolded One_nat_def])
  qed
qed

theorem symbol_accumulates_msb_first_witness:
  "unat (3 :: uint) \<le> 32 \<and>
   msequence_generate_symbol \<lparr>ms_m = 4, ms_g = 9, ms_a = 8, ms_n = 15, ms_v = 4, ms_b = 0\<rparr> 3
     = (3, \<lparr>ms_m = 4, ms_g = 9, ms_a = 8, ms_n = 15, ms_v = 3, ms_b = 1\<rparr>) \<and>
   fst (advance_n (unat (3 :: uint)) \<lparr>ms_m = 4, ms_g = 9, ms_a = 8, ms_n = 15, ms_v = 4, ms_b = 0\<rparr>) = [0, 1, 1] \<and>
   bit (fst (msequence_generate_symbol \<lparr>ms_m = 4, ms_g = 9, ms_a = 8, ms_n = 15, ms_v = 4, ms_b = 0\<rparr> 3)) 2 = (fst (advance_n (unat (3 :: uint)) \<lparr>ms_m = 4, ms_g = 9, ms_a = 8, ms_n = 15, ms_v = 4, ms_b = 0\<rparr>) ! 0 = 1) \<and>
   bit (fst (msequence_generate_symbol \<lparr>ms_m = 4, ms_g = 9, ms_a = 8, ms_n = 15, ms_v = 4, ms_b = 0\<rparr> 3)) 1 = (fst (advance_n (unat (3 :: uint)) \<lparr>ms_m = 4, ms_g = 9, ms_a = 8, ms_n = 15, ms_v = 4, ms_b = 0\<rparr>) ! 1 = 1) \<and>
   bit (fst (msequence_generate_symbol \<lparr>ms_m = 4, ms_g = 9, ms_a = 8, ms_n = 15, ms_v = 4, ms_b = 0\<rparr> 3)) 0 = (fst (advance_n (unat (3 :: uint)) \<lparr>ms_m = 4, ms_g = 9, ms_a = 8, ms_n = 15, ms_v = 4, ms_b = 0\<rparr>) ! 2 = 1)"
proof -
  have 1: "msequence_generate_symbol \<lparr>ms_m = 4, ms_g = 9, ms_a = 8, ms_n = 15, ms_v = 4, ms_b = 0\<rparr> 3
     = (3, \<lparr>ms_m = 4, ms_g = 9, ms_a = 8, ms_n = 15, ms_v = 3, ms_b = 1\<rparr>)"
    by (simp add: eval_simps)
  have 2: "fst (advance_n 3 \<lparr>ms_m = 4, ms_g = 9, ms_a = 8, ms_n = 15, ms_v = 4, ms_b = 0\<rparr>) = [0, 1, 1]"
    by (simp add: eval_simps)
  show ?thesis
    using symbol_accumulates_msb_first [of "\<lparr>ms_m = 4, ms_g = 9, ms_a = 8, ms_n = 15, ms_v = 4, ms_b = 0\<rparr>" 3] 1 2
    by simp
qed

subsection \<open>The zero state\<close>

lemma funpow_step_zero: "(lfsr_step g n ^^ k) 0 = 0"
  by (induction k) (simp_all add: lfsr_step_zero)

text \<open>
  Claim C9. When the register is zero, an advance returns 0 and leaves the register zero,
  and so does every further advance: any number of advances gives only zeros.
\<close>

theorem zero_state_locks:
  assumes "ms_v ms = 0"
  shows "fst (msequence_advance ms) = 0 \<and> ms_v (snd (msequence_advance ms)) = 0 \<and>
         fst (advance_n k ms) = replicate k 0 \<and> ms_v (snd (advance_n k ms)) = 0"
proof -
  have "fst (advance_n k ms) = map (\<lambda>t. 0) [0..<k]"
    using assms by (simp add: advance_n_fst funpow_step_zero bdotprod_zero)
  also have "\<dots> = replicate k 0"
    by (simp add: map_replicate_const)
  finally show ?thesis
    using assms by (simp add: advance_eq advance_n_config funpow_step_zero bdotprod_zero lfsr_step_zero)
qed

theorem zero_state_locks_witness:
  "ms_v (msequence_set_state \<lparr>ms_m = 4, ms_g = 9, ms_a = 8, ms_n = 15, ms_v = 8, ms_b = 0\<rparr> 0) = 0 \<and>
   fst (advance_n 7 (msequence_set_state \<lparr>ms_m = 4, ms_g = 9, ms_a = 8, ms_n = 15, ms_v = 8, ms_b = 0\<rparr> 0))
     = [0, 0, 0, 0, 0, 0, 0] \<and>
   ms_v (snd (advance_n 7 (msequence_set_state \<lparr>ms_m = 4, ms_g = 9, ms_a = 8, ms_n = 15, ms_v = 8, ms_b = 0\<rparr> 0))) = 0"
proof -
  have z: "ms_v (msequence_set_state \<lparr>ms_m = 4, ms_g = 9, ms_a = 8, ms_n = 15, ms_v = 8, ms_b = 0\<rparr> 0) = 0"
    by (simp add: msequence_set_state_def)
  have "replicate 7 (0 :: uint) = [0, 0, 0, 0, 0, 0, 0]"
    by (simp add: numeral_eq_Suc)
  then show ?thesis
    using zero_state_locks [OF z, of 7] z by simp
qed

subsection \<open>High seed bits\<close>

lemma reverse_loop_low_bits:
  assumes "k \<le> 32" "unat a mod 2 ^ k = unat a' mod 2 ^ k"
  shows "reverse_loop k 0 a = reverse_loop k 0 a'"
proof -
  have "unat (take_bit k x) = unat x mod 2 ^ k" for x :: uint
    unfolding unsigned_take_bit_eq by (rule take_bit_eq_mod)
  then have "unat (take_bit k a) = unat (take_bit k a')"
    using assms(2) by simp
  then have "take_bit k a = take_bit k a'"
    by (simp add: word_unat_eq_iff)
  then have eq: "bit (take_bit k a) j = bit (take_bit k a') j" for j
    by simp
  have "bit a j = bit a' j" if "j < k" for j
    using eq [of j] that by (simp add: bit_take_bit_iff)
  then show ?thesis
    using assms(1) by (intro bit_eqI) (auto simp add: reverse_loop_bit0)
qed

text \<open>
  Claim C10. For \<open>m\<close> in \<open>[2,31]\<close>, two seeds that agree modulo \<open>2^m\<close> give the same
  object: the explicit constructor ignores the seed bits from position \<open>m\<close> up.
\<close>

theorem seed_high_bits_ignored:
  assumes "2 \<le> m" "m \<le> 31" "unat a mod 2 ^ unat m = unat a' mod 2 ^ unat m"
  shows "msequence_create m g a = msequence_create m g a' \<and> \<not> isl (msequence_create m g a)"
proof -
  have "unat m \<le> 32"
    using assms(2) by (simp add: word_le_nat_alt)
  then have "reverse_loop (unat m) 0 a = reverse_loop (unat m) 0 a'"
    using assms(3) by (rule reverse_loop_low_bits)
  then have "msequence_create m g a = msequence_create m g a'"
    by (simp add: msequence_create_def Let_def)
  moreover have "\<not> isl (msequence_create m g a)"
    using assms(1,2) by (simp add: create_isl)
  ultimately show ?thesis
    by simp
qed

theorem seed_high_bits_ignored_witness:
  "(2 :: uint) \<le> 4 \<and> (4 :: uint) \<le> 31 \<and>
   unat (0x3 :: uint) mod 2 ^ unat (4 :: uint) = unat (0xFFFFFFF3 :: uint) mod 2 ^ unat (4 :: uint) \<and>
   msequence_create 4 0x13 0x3 = msequence_create 4 0x13 0xFFFFFFF3 \<and>
   msequence_create 4 0x13 0xFFFFFFF3 = Inr \<lparr>ms_m = 4, ms_g = 9, ms_a = 12, ms_n = 15, ms_v = 12, ms_b = 0\<rparr>"
proof -
  have h: "unat (0x3 :: uint) mod 2 ^ unat (4 :: uint) = unat (0xFFFFFFF3 :: uint) mod 2 ^ unat (4 :: uint)"
    by simp
  have "msequence_create 4 0x13 0xFFFFFFF3 = Inr \<lparr>ms_m = 4, ms_g = 9, ms_a = 12, ms_n = 15, ms_v = 12, ms_b = 0\<rparr>"
    by (simp add: create_Inr eval_simps)
  then show ?thesis
    using seed_high_bits_ignored [of 4 "0x3" "0xFFFFFFF3" "0x13"] h by simp
qed

subsection \<open>Divisors and periods\<close>

lemma prime_upto_no_divisor:
  assumes "prime_upto r p" "k dvd p"
  shows "k = 1 \<or> k = p"
proof (rule ccontr)
  assume n: "\<not> (k = 1 \<or> k = p)"
  from assms(1) have p: "1 < p" "p < r * r"
    and t: "\<And>c. 2 \<le> c \<Longrightarrow> c < r \<Longrightarrow> c * c \<le> p \<Longrightarrow> \<not> c dvd p"
    by (auto simp add: prime_upto_def)
  from assms(2) obtain j where j: "p = k * j" ..
  with p n have k: "2 \<le> k" "2 \<le> j"
    by (cases k; cases j; auto)+
  define c where "c = min k j"
  have "c dvd p"
    using j by (auto simp add: c_def min_def)
  moreover have "c * c \<le> p"
    unfolding j c_def by (auto simp add: min_def intro: mult_le_mono)
  moreover from this p have "c < r"
    by (metis le_less_trans not_less mult_le_mono leD leI)
  moreover have "2 \<le> c"
    using k by (simp add: c_def)
  ultimately show False
    using t by blast
qed

lemma prime_upto_coprime:
  assumes "prime_upto r p" "\<not> p dvd q"
  shows "coprime p q"
proof -
  have "gcd p q dvd p" by simp
  then have "gcd p q = 1 \<or> gcd p q = p"
    using assms(1) by (rule prime_upto_no_divisor [rotated])
  moreover have "gcd p q \<noteq> p"
    using assms(2) by (metis gcd_dvd2)
  ultimately show ?thesis
    by (simp add: coprime_iff_gcd_eq_1)
qed

lemma coprime_prod_list:
  fixes q :: nat
  assumes "\<forall>p \<in> set ps. coprime p q"
  shows "coprime (prod_list ps) q"
  using assms by (induction ps) simp_all

lemma proper_divisor_cover:
  fixes N d :: nat
  assumes "d dvd N" "d < N" "prod_list ps = N" "\<forall>p \<in> set ps. prime_upto r p"
  shows "\<exists>p \<in> set ps. d dvd N div p"
proof (rule ccontr)
  assume n: "\<not> (\<exists>p \<in> set ps. d dvd N div p)"
  from assms(1) obtain q where q: "N = d * q" ..
  have dpos: "0 < d"
    using assms(1,2) by (cases d) auto
  have "coprime p q" if "p \<in> set ps" for p
  proof -
    have pr: "prime_upto r p"
      using assms(4) that by blast
    have "\<not> p dvd q"
    proof
      assume "p dvd q"
      then obtain q' where "q = p * q'" ..
      then have "N div p = d * q'"
        using q pr by (simp add: prime_upto_def)
      then show False
        using n that by auto
    qed
    with pr show ?thesis
      by (rule prime_upto_coprime)
  qed
  then have "coprime N q"
    using coprime_prod_list [of ps q] assms(3) by blast
  moreover have "q dvd N"
    using q by simp
  ultimately have "q = 1"
    by (metis coprime_common_divisor_nat dvd_refl)
  then show False
    using q assms(2) by simp
qed

lemma is_period_mult:
  assumes "is_period d bs"
  shows "is_period (k * d) bs"
proof (induction k)
  case 0
  show ?case by (simp add: is_period_def)
next
  case (Suc k)
  show ?case
    unfolding is_period_def
  proof (intro allI impI)
    fix i
    assume "i + Suc k * d < length bs"
    then have *: "(i + k * d) + d < length bs" "i + k * d < length bs"
      by (simp_all add: algebra_simps)
    have "bs ! (i + Suc k * d) = bs ! ((i + k * d) + d)"
      by (simp add: algebra_simps)
    also have "\<dots> = bs ! (i + k * d)"
      using assms *(1) by (simp add: is_period_def)
    also have "\<dots> = bs ! i"
      using Suc.IH *(2) by (simp add: is_period_def)
    finally show "bs ! (i + Suc k * d) = bs ! i" .
  qed
qed

subsection \<open>Linearity of the register update\<close>

lemma xor_reduce_xor: "xor_reduce k (x XOR y) = (xor_reduce k x \<noteq> xor_reduce k y)"
  by (induction k) (auto simp add: bit_xor_iff)

lemma lfsr_step_bit:
  "bit (lfsr_step g n v) j =
     (bit n j \<and> (if j = 0 then xor_reduce 32 (v AND g) else j < 32 \<and> bit v (j - Suc 0)))"
proof -
  have "parity w AND 1 = parity w" for w
    by (simp add: parity_def)
  then have "lfsr_step g n v = (push_bit 1 v OR (parity (v AND g) AND 1)) AND n"
    by (simp add: lfsr_step_def liquid_bdotprod_def)
  then have "bit (lfsr_step g n v) j =
      (bit (push_bit 1 v OR (parity (v AND g) AND 1)) j \<and> bit n j)"
    by (simp only: bit_and_iff)
  also have "bit (push_bit 1 v OR (parity (v AND g) AND 1)) j =
      (if j = 0 then bit (parity (v AND g)) 0 else j < 32 \<and> bit v (j - Suc 0))"
    by (rule shift_in_bit)
  also have "bit (parity (v AND g)) 0 = xor_reduce 32 (v AND g)"
    by (simp add: parity_def)
  finally show ?thesis
    by auto
qed

lemma linear_lfsr_step: "linear (lfsr_step g n)"
  unfolding linear_def
proof (intro allI bit_eqI)
  fix x y j
  have "(x XOR y) AND g = (x AND g) XOR (y AND g)"
    by (simp add: bit_eq_iff bit_and_iff bit_xor_iff) blast
  then show "bit (lfsr_step g n (x XOR y)) j = bit (lfsr_step g n x XOR lfsr_step g n y) j"
    by (auto simp add: lfsr_step_bit bit_xor_iff xor_reduce_xor)
qed

lemma linear_zero: "linear h \<Longrightarrow> h 0 = 0"
  by (metis linear_def xor_self_eq)

lemma linear_comp: "linear h \<Longrightarrow> linear k \<Longrightarrow> linear (h \<circ> k)"
  by (simp add: linear_def)

lemma mat_apply_range:
  assumes "linear h"
  shows "mat_apply (map (\<lambda>i. h (push_bit i 1)) [k..<k + j]) w = h (push_bit k (take_bit j w))"
proof (induction j arbitrary: k w)
  case 0
  show ?case
    using assms by (simp add: linear_zero)
next
  case (Suc j)
  have l: "[k..<k + Suc j] = k # [Suc k..<Suc k + j]"
    by (simp add: upt_conv_Cons del: upt_Suc)
  have split: "push_bit k (take_bit (Suc j) w) =
      (if bit w 0 then push_bit k 1 else 0) XOR push_bit (Suc k) (take_bit j (drop_bit 1 w))"
  proof (rule bit_eqI)
    fix i
    have "i < k \<or> i = k \<or> (\<exists>t. i = Suc k + t)"
      by presburger
    then consider "i < k" | "i = k" | t where "i = Suc k + t"
      by blast
    then show "bit (push_bit k (take_bit (Suc j) w)) i =
        bit ((if bit w 0 then push_bit k 1 else 0)
          XOR push_bit (Suc k) (take_bit j (drop_bit 1 w))) i"
    proof cases
      case 1
      then show ?thesis
        by (simp add: bit_push_bit_iff bit_take_bit_iff bit_xor_iff bit_drop_bit_eq bit_1_iff bit_exp_iff
            del: push_bit_Suc push_bit_of_Suc_0)
    next
      case 2
      then show ?thesis
        by (simp add: bit_push_bit_iff bit_take_bit_iff bit_xor_iff bit_drop_bit_eq bit_1_iff bit_exp_iff
            del: push_bit_Suc push_bit_of_Suc_0)
    next
      case 3
      then show ?thesis
        by (simp add: bit_push_bit_iff bit_take_bit_iff bit_xor_iff bit_drop_bit_eq bit_1_iff bit_exp_iff
            del: push_bit_Suc push_bit_of_Suc_0) blast
    qed
  qed
  have "mat_apply (map (\<lambda>i. h (push_bit i 1)) [k..<k + Suc j]) w =
      (if bit w 0 then h (push_bit k 1) else 0)
        XOR h (push_bit (Suc k) (take_bit j (drop_bit 1 w)))"
    unfolding l using Suc.IH [of "Suc k" "drop_bit 1 w"]
    by (simp del: upt_Suc push_bit_Suc push_bit_of_Suc_0)
  also have "\<dots> = h ((if bit w 0 then push_bit k 1 else 0)
        XOR push_bit (Suc k) (take_bit j (drop_bit 1 w)))"
    using assms by (simp add: linear_def linear_zero)
  finally show ?case
    by (simp only: split)
qed

lemma mat_apply_mat_of:
  assumes "linear h"
  shows "mat_apply (mat_of h m) v = h (take_bit m v)"
  using mat_apply_range [OF assms, of 0 m v] by (simp add: mat_of_def)

lemma mat_sq_mat_of:
  assumes "linear h" "bounded m h"
  shows "mat_sq (mat_of h m) = mat_of (h \<circ> h) m"
proof -
  have "mat_apply (mat_of h m) (h x) = h (h x)" for x
    using assms by (simp add: mat_apply_mat_of bounded_def)
  then show ?thesis
    by (simp add: mat_sq_def mat_of_def)
qed

lemma bounded_comp: "bounded m h \<Longrightarrow> bounded m (h \<circ> k)"
  by (simp add: bounded_def)

lemma apply_bits_funpow:
  assumes "linear h" "bounded m h" "e < 2 ^ k" "take_bit m v = v"
  shows "apply_bits (mat_pows k (mat_of h m)) e v = (h ^^ e) v"
  using assms
proof (induction k arbitrary: h e v)
  case 0
  then show ?case by simp
next
  case (Suc k)
  let ?v = "if odd e then h v else v"
  have v: "take_bit m ?v = ?v"
    using Suc.prems(2,4) by (simp add: bounded_def)
  have e: "e div 2 < 2 ^ k"
    using Suc.prems(3) by simp
  have "apply_bits (mat_pows (Suc k) (mat_of h m)) e v =
      apply_bits (mat_pows k (mat_of (h \<circ> h) m)) (e div 2) ?v"
    using Suc.prems by (simp add: mat_sq_mat_of mat_apply_mat_of)
  also have "\<dots> = ((h \<circ> h) ^^ (e div 2)) ?v"
    using Suc.prems(1,2) e v by (intro Suc.IH linear_comp bounded_comp)
  also have "(h \<circ> h) = h ^^ 2"
    by (simp add: numeral_2_eq_2)
  also have "((h ^^ 2) ^^ (e div 2)) ?v = (h ^^ (2 * (e div 2))) ?v"
    by (simp add: funpow_mult)
  also have "\<dots> = (h ^^ e) v"
  proof (cases "odd e")
    case True
    then have "e = Suc (2 * (e div 2))"
      by presburger
    then have "(h ^^ e) v = (h ^^ (2 * (e div 2))) (h v)"
      by (metis funpow_Suc_right comp_apply)
    with True show ?thesis by simp
  next
    case False
    then show ?thesis by simp
  qed
  finally show ?case .
qed

subsection \<open>Evaluating the check on the default table\<close>

lemma mat_pows_numeral:
  "mat_pows (numeral k) M = M # mat_pows (pred_numeral k) (mat_sq M)"
  by (simp add: numeral_eq_Suc)

lemma mat_of_0: "mat_of h 0 = []"
  by (simp add: mat_of_def)

lemma mat_of_Suc: "mat_of h (Suc k) = mat_of h k @ [h (push_bit k 1)]"
  by (simp add: mat_of_def)

lemma mat_of_numeral:
  "mat_of h (numeral k) = mat_of h (pred_numeral k) @ [h (push_bit (pred_numeral k) 1)]"
  by (simp add: numeral_eq_Suc mat_of_Suc)

lemmas check_simps =
  default_check_def period_check_def check_with_def cofactor_differs_def default_factors_def
  prime_upto_def msequence_default_def row_def mat_pows_numeral mat_of_0 mat_of_Suc
  mat_of_numeral mat_sq_def lfsr_step_def liquid_bdotprod_def parity_def xor_reduce_numeral

lemma default_check_2: "default_check 2"
  by (simp add: check_simps)

lemma default_check_3: "default_check 3"
  by (simp add: check_simps)

lemma default_check_4: "default_check 4"
  by (simp add: check_simps)

lemma default_check_5: "default_check 5"
  by (simp add: check_simps)

lemma default_check_6: "default_check 6"
  by (simp add: check_simps)

lemma default_check_7: "default_check 7"
  by (simp add: check_simps)

lemma default_check_8: "default_check 8"
  by (simp add: check_simps)

lemma default_check_9: "default_check 9"
  by (simp add: check_simps)

lemma default_check_10: "default_check 10"
  by (simp add: check_simps)

lemma default_check_11: "default_check 11"
  by (simp add: check_simps)

lemma default_check_12: "default_check 12"
  by (simp add: check_simps)

lemma default_check_13: "default_check 13"
  by (simp add: check_simps)

lemma default_check_14: "default_check 14"
  by (simp add: check_simps)

lemma default_check_15: "default_check 15"
  by (simp add: check_simps)

subsection \<open>The stream and the register\<close>

lemma word_mask_exp: "(2 ^ m - 1 :: uint) = mask m"
  by (simp add: mask_eq_exp_minus_1)

lemma bounded_lfsr_step: "bounded m (lfsr_step g (2 ^ m - 1))"
  unfolding bounded_def word_mask_exp lfsr_step_def
  by (simp add: take_bit_eq_mask and.assoc)

lemma masked_take_bit:
  fixes a :: uint
  assumes "a AND (2 ^ m - 1) = a"
  shows "take_bit m a = a"
  using assms by (simp add: word_mask_exp take_bit_eq_mask)

lemma apply_bits_lfsr:
  assumes "a AND (2 ^ m - 1) = a" "e < 2 ^ m"
  shows "apply_bits (mat_pows m (mat_of (lfsr_step g (2 ^ m - 1)) m)) e a
     = (lfsr_step g (2 ^ m - 1) ^^ e) a"
  using linear_lfsr_step bounded_lfsr_step assms(2) masked_take_bit [OF assms(1)]
  by (rule apply_bits_funpow)

lemma state_bit_stream:
  assumes "i < m" "i < t"
  shows "bit ((lfsr_step g (2 ^ m - 1) ^^ t) a) i \<longleftrightarrow>
     i < 32 \<and> liquid_bdotprod ((lfsr_step g (2 ^ m - 1) ^^ (t - 1 - i)) a) g = 1"
  using assms
proof (induction t arbitrary: i)
  case 0
  then show ?case by simp
next
  case (Suc t)
  show ?case
  proof (cases i)
    case 0
    then show ?thesis
      using Suc.prems
      by (simp add: lfsr_step_bit word_mask_exp bit_mask_iff liquid_bdotprod_def parity_def)
  next
    case (Suc j)
    then have "j < m" "j < t"
      using Suc.prems by simp_all
    then have "bit ((lfsr_step g (2 ^ m - 1) ^^ t) a) j \<longleftrightarrow>
        j < 32 \<and> liquid_bdotprod ((lfsr_step g (2 ^ m - 1) ^^ (t - 1 - j)) a) g = 1"
      by (rule Suc.IH)
    then show ?thesis
      using Suc Suc.prems
      by (auto simp add: lfsr_step_bit word_mask_exp bit_mask_iff)
  qed
qed

lemma state_high_bits:
  assumes "bit ((lfsr_step g (2 ^ m - 1) ^^ t) a) i" "0 < t"
  shows "i < m"
proof -
  from assms(2) obtain t' where "t = Suc t'"
    by (cases t) auto
  with assms(1) show ?thesis
    by (simp add: lfsr_step_bit word_mask_exp bit_mask_iff)
qed

lemma period_forces_state:
  assumes p: "is_period d (map (\<lambda>t. liquid_bdotprod ((lfsr_step g (2 ^ m - 1) ^^ t) a) g) [0..<N])"
    and "m + d \<le> N" "0 < m"
  shows "(lfsr_step g (2 ^ m - 1) ^^ (m + d)) a = (lfsr_step g (2 ^ m - 1) ^^ m) a"
proof (rule bit_eqI)
  fix i
  let ?s = "\<lambda>t. (lfsr_step g (2 ^ m - 1) ^^ t) a"
  let ?b = "\<lambda>t. liquid_bdotprod (?s t) g"
  show "bit (?s (m + d)) i = bit (?s m) i"
  proof (cases "i < m")
    case True
    let ?j = "m - 1 - i"
    have j: "?j + d < N" "?j < N"
      using True assms(2) by simp_all
    have "map ?b [0..<N] ! (?j + d) = map ?b [0..<N] ! ?j"
      using p j(1) by (simp add: is_period_def)
    then have "?b (?j + d) = ?b ?j"
      using j by simp
    moreover have "m + d - 1 - i = ?j + d"
      using True by simp
    ultimately show ?thesis
      using True state_bit_stream [where i = i and m = m and t = "m + d" and g = g and a = a]
        state_bit_stream [where i = i and m = m and t = m and g = g and a = a]
      by simp
  next
    case False
    then show ?thesis
      using state_high_bits [where g = g and m = m and t = "m + d" and a = a and i = i]
        state_high_bits [where g = g and m = m and t = m and a = a and i = i] assms(3)
      by auto
  qed
qed

lemma period_check_sound:
  assumes c: "period_check m g a ps r" and m: "0 < m"
  defines "N \<equiv> 2 ^ m - 1"
  shows "(lfsr_step g (2 ^ m - 1) ^^ N) a = a"
    and "\<forall>d. 0 < d \<and> d < N \<and> d dvd N \<longrightarrow>
           \<not> is_period d (map (\<lambda>t. liquid_bdotprod ((lfsr_step g (2 ^ m - 1) ^^ t) a) g) [0..<N])"
proof -
  let ?Ms = "mat_pows m (mat_of (lfsr_step g (2 ^ m - 1)) m)"
  let ?bits = "map (\<lambda>t. liquid_bdotprod ((lfsr_step g (2 ^ m - 1) ^^ t) a) g) [0..<N]"
  from c have a: "a AND (2 ^ m - 1) = a"
    and ps: "prod_list ps = N" "\<forall>p \<in> set ps. prime_upto r p"
    and ret: "apply_bits ?Ms N a = a"
    and co: "\<forall>p \<in> set ps. cofactor_differs ?Ms m a p"
    by (simp_all add: period_check_def check_with_def N_def list_all_iff)
  have N: "N < 2 ^ m"
    by (simp add: N_def)
  have lt: "m < 2 ^ m"
    by (rule less_exp)
  show "(lfsr_step g (2 ^ m - 1) ^^ N) a = a"
    using apply_bits_lfsr [OF a N, of g] ret by simp
  show "\<forall>d. 0 < d \<and> d < N \<and> d dvd N \<longrightarrow> \<not> is_period d ?bits"
  proof (intro allI impI notI)
    fix d
    assume d: "0 < d \<and> d < N \<and> d dvd N" and per: "is_period d ?bits"
    from d ps obtain p where p: "p \<in> set ps" "d dvd N div p"
      using proper_divisor_cover [of d N ps r] by blast
    then obtain k where k: "N div p = k * d"
      by (auto simp add: dvd_def mult.commute)
    have per': "is_period (N div p) ?bits"
      unfolding k using per by (rule is_period_mult)
    from co p(1) have le: "m + N div p \<le> N"
      and ne: "apply_bits ?Ms (m + N div p) a \<noteq> apply_bits ?Ms m a"
      by (simp_all add: cofactor_differs_def N_def)
    have "m + N div p < 2 ^ m"
      using le N by simp
    then have "apply_bits ?Ms (m + N div p) a = (lfsr_step g (2 ^ m - 1) ^^ (m + N div p)) a"
      by (rule apply_bits_lfsr [OF a])
    moreover have "apply_bits ?Ms m a = (lfsr_step g (2 ^ m - 1) ^^ m) a"
      using lt by (rule apply_bits_lfsr [OF a])
    moreover have "(lfsr_step g (2 ^ m - 1) ^^ (m + N div p)) a = (lfsr_step g (2 ^ m - 1) ^^ m) a"
      using per' le m by (rule period_forces_state)
    ultimately show False
      using ne by simp
  qed
qed

subsection \<open>Periodicity of the default sequences\<close>

lemma unat_exp_minus_1:
  assumes "k < 32"
  shows "unat (2 ^ k - 1 :: uint) = 2 ^ k - 1"
proof -
  have e: "(of_nat (2 ^ k - 1) :: uint) = 2 ^ k - 1"
    by simp
  have "(2 :: nat) ^ k < 2 ^ 32"
    using assms by (rule power_strict_increasing) simp
  then have lt: "(2 :: nat) ^ k - 1 < 2 ^ 32"
    by simp
  have "unat (of_nat (2 ^ k - 1) :: uint) = (2 ^ k - 1) mod 2 ^ LENGTH(32)"
    by (rule unat_of_nat)
  also have "\<dots> = 2 ^ k - 1"
    using lt by simp
  finally show ?thesis
    by (simp only: e)
qed

lemma not_period_1_differs:
  assumes "\<not> is_period 1 bs"
  shows "\<exists>i j. i < length bs \<and> j < length bs \<and> bs ! i \<noteq> bs ! j"
proof -
  from assms obtain i where "i + 1 < length bs" "bs ! (i + 1) \<noteq> bs ! i"
    by (auto simp add: is_period_def)
  then show ?thesis
    by (intro exI [of _ "i + 1"] exI [of _ i]) simp
qed

lemma default_check_all:
  assumes "2 \<le> k" "k \<le> 15"
  shows "default_check k"
proof -
  have "k \<in> {2, 3, 4, 5, 6, 7, 8, 9, 10, 11, 12, 13, 14, 15}"
    using assms by simp arith
  then show ?thesis
    using default_check_2 default_check_3 default_check_4 default_check_5 default_check_6
      default_check_7 default_check_8 default_check_9 default_check_10 default_check_11
      default_check_12 default_check_13 default_check_14 default_check_15
    by auto
qed

text \<open>
  Claim C2. For every register length \<open>m\<close> from 2 to 15, the default constructor returns
  an object that, advanced \<open>2^m - 1\<close> times, has its register back at the initial state;
  the \<open>2^m - 1\<close> bits produced are not all equal, no proper divisor of \<open>2^m - 1\<close> is a
  period of them, and from there on the object produces the same bits again.
\<close>

theorem default_sequences_maximal:
  assumes "2 \<le> m" "m \<le> 15"
  shows "\<exists>ms bits ms'.
     msequence_create_default m = Inr ms \<and>
     ms_n ms = 2 ^ unat m - 1 \<and>
     advance_n (unat (ms_n ms)) ms = (bits, ms') \<and>
     length bits = 2 ^ unat m - 1 \<and>
     ms_v ms' = ms_a ms \<and>
     (\<exists>i j. i < length bits \<and> j < length bits \<and> bits ! i \<noteq> bits ! j) \<and>
     (\<forall>d. 0 < d \<and> d < 2 ^ unat m - 1 \<and> d dvd 2 ^ unat m - 1 \<longrightarrow> \<not> is_period d bits) \<and>
     (\<forall>k. fst (advance_n k ms') = fst (advance_n k ms))"
proof -
  define k where "k = unat m"
  define ms where "ms = msequence_default ! k"
  define N :: nat where "N = 2 ^ k - 1"
  define bits where "bits = fst (advance_n N ms)"
  define ms' where "ms' = snd (advance_n N ms)"
  have k: "2 \<le> k" "k \<le> 15"
    using assms by (simp_all add: k_def word_le_nat_alt)
  have cr: "msequence_create_default m = Inr ms"
    using assms by (simp add: default_Inr ms_def k_def)
  note f = default_row_facts [OF assms ms_def [unfolded k_def]]
  have n: "ms_n ms = 2 ^ k - 1" and va: "ms_v ms = ms_a ms"
    using f by (simp_all add: k_def)
  have un: "unat (ms_n ms) = N"
    unfolding n N_def using k by (intro unat_exp_minus_1) simp
  have "period_check k (ms_g ms) (ms_a ms) (default_factors k) 91"
    using default_check_all [OF k] by (simp add: default_check_def ms_def)
  from period_check_sound [OF this] k(1)
  have ret: "(lfsr_step (ms_g ms) (2 ^ k - 1) ^^ N) (ms_a ms) = ms_a ms"
    and np: "\<forall>d. 0 < d \<and> d < N \<and> d dvd N \<longrightarrow>
      \<not> is_period d (map (\<lambda>t. liquid_bdotprod ((lfsr_step (ms_g ms) (2 ^ k - 1) ^^ t) (ms_a ms))
              (ms_g ms)) [0..<N])"
    by (simp_all add: N_def)
  have bits: "bits = map (\<lambda>t. liquid_bdotprod ((lfsr_step (ms_g ms) (2 ^ k - 1) ^^ t) (ms_a ms))
              (ms_g ms)) [0..<N]"
    by (simp add: bits_def advance_n_fst n va)
  have v': "ms_v ms' = ms_a ms"
    using ret by (simp add: ms'_def advance_n_config n va)
  have "(2 :: nat) ^ 2 \<le> 2 ^ k"
    using k(1) by (intro power_increasing) simp_all
  then have N3: "1 < N" "1 dvd N"
    by (simp_all add: N_def)
  then have "\<not> is_period 1 bits"
    using np bits by simp
  then have nc: "\<exists>i j. i < length bits \<and> j < length bits \<and> bits ! i \<noteq> bits ! j"
    by (rule not_period_1_differs)
  have rep: "fst (advance_n j ms') = fst (advance_n j ms)" for j
    using v' va by (simp add: advance_n_fst ms'_def advance_n_config)
  have "advance_n (unat (ms_n ms)) ms = (bits, ms')"
    by (simp add: un bits_def ms'_def)
  moreover have "length bits = 2 ^ unat m - 1"
    by (simp add: bits N_def k_def)
  moreover have "ms_n ms = 2 ^ unat m - 1"
    using n by (simp add: k_def)
  moreover have "\<forall>d. 0 < d \<and> d < 2 ^ unat m - 1 \<and> d dvd 2 ^ unat m - 1 \<longrightarrow> \<not> is_period d bits"
    using np by (simp add: bits N_def k_def)
  ultimately show ?thesis
    using cr v' nc rep by blast
qed

theorem default_sequences_maximal_witness:
  "(2 :: uint) \<le> 2 \<and> (2 :: uint) \<le> 15 \<and>
   msequence_create_default 2 = Inr \<lparr>ms_m = 2, ms_g = 3, ms_a = 2, ms_n = 3, ms_v = 2, ms_b = 0\<rparr> \<and>
   ms_n \<lparr>ms_m = 2, ms_g = 3, ms_a = 2, ms_n = 3, ms_v = 2, ms_b = 0\<rparr> = 2 ^ unat (2 :: uint) - 1 \<and>
   fst (advance_n (unat (ms_n \<lparr>ms_m = 2, ms_g = 3, ms_a = 2, ms_n = 3, ms_v = 2, ms_b = 0\<rparr>)) \<lparr>ms_m = 2, ms_g = 3, ms_a = 2, ms_n = 3, ms_v = 2, ms_b = 0\<rparr>) = [1, 1, 0] \<and>
   ms_v (snd (advance_n (unat (ms_n \<lparr>ms_m = 2, ms_g = 3, ms_a = 2, ms_n = 3, ms_v = 2, ms_b = 0\<rparr>)) \<lparr>ms_m = 2, ms_g = 3, ms_a = 2, ms_n = 3, ms_v = 2, ms_b = 0\<rparr>)) = ms_a \<lparr>ms_m = 2, ms_g = 3, ms_a = 2, ms_n = 3, ms_v = 2, ms_b = 0\<rparr> \<and>
   [1, 1, 0 :: uint] ! 1 \<noteq> [1, 1, 0 :: uint] ! 2"
proof -
  have 1: "msequence_create_default 2 = Inr \<lparr>ms_m = 2, ms_g = 3, ms_a = 2, ms_n = 3, ms_v = 2, ms_b = 0\<rparr>"
    by (simp add: default_Inr msequence_default_def row_def)
  have 2: "advance_n 3 \<lparr>ms_m = 2, ms_g = 3, ms_a = 2, ms_n = 3, ms_v = 2, ms_b = 0\<rparr> = ([1, 1, 0], \<lparr>ms_m = 2, ms_g = 3, ms_a = 2, ms_n = 3, ms_v = 2, ms_b = 0\<rparr>)"
    by (simp add: eval_simps)
  show ?thesis
    using default_sequences_maximal [of 2] 1 2 by simp
qed

end
